theory Spec2Isabelle
  imports Main
begin

section \<open>Transparent reading (bmaptools/TransRead.py)\<close>

text \<open>
  The module reads a local or remote file and decompresses it on the fly. This theory
  embeds its forward-seek emulation (\<open>_fake_seek_forward\<close>), the buffered
  decompressor (\<open>_CompressedFile\<close>) and the facade (\<open>TransRead\<close>), and proves
  properties of their read and seek operations.

  Python 2 byte strings are lists of \<open>char\<close>; Python integers are \<open>int\<close>.
\<close>

type_synonym bytes = string

subsection \<open>Errors\<close>

text \<open>
  An exception of a library the module calls: \<open>IOError\<close>, which is the only class
  that \<open>_open_compressed_file\<close> catches, or any other class (for example
  \<open>tarfile.ReadError\<close>, \<open>zlib.error\<close>, \<open>OSError\<close>).
\<close>

datatype py_exception = IOError string | OtherException string

text \<open>
  The module raises a single class \<open>Error\<close> with a message; each raise site is its own
  constructor here, with the numbers its message embeds. \<open>AssertionError\<close> is a failed
  \<open>assert\<close>; \<open>Raised\<close> is a library exception that the module lets through.

  The \<open>read\<close> of a raw file object raises only for a size it cannot convert
  (\<open>OverflowError\<close>, see \<open>file_object_read\<close>), and a decompression function is total:
  what they may raise on a failing device or on corrupt data is not part of the model. The
  library calls of \<open>_open_compressed_file\<close>, which sit inside its \<open>try\<close>, may raise.
\<close>

datatype error =
    InvalidWhence int
  | BackwardSeek int int
  | SeekedTooFar int int
  | CannotOpenFile string py_exception
  | AssertionError
  | Raised py_exception

subsection \<open>The file objects the module reads from\<close>

text \<open>
  A one-pass file-like object (a file, an HTTP response, a pipe) is the list of the bytes
  it has not delivered yet. Its \<open>read(n)\<close> delivers the next \<open>n\<close> bytes, fewer at the
  end of the stream, and everything left when \<open>n\<close> is negative.
\<close>

definition file_read :: "bytes \<Rightarrow> int \<Rightarrow> bytes \<times> bytes" where
  "file_read f n = (if n < 0 then (f, []) else (take (nat n) f, drop (nat n) f))"

text \<open>
  The \<open>read\<close> of a Python 2 file object (a local file, a pipe) converts the size to a C
  long first and raises \<open>OverflowError\<close> when it does not fit (64-bit platform); the
  \<open>read\<close> of an object written in Python (the member stream of a tar archive, an HTTP
  response with a known length) takes any size. The flag \<open>c_long\<close> tells which. The
  decompressor reads its raw file object with its chunk size, which is 128 KiB or 128 in this
  module and is taken to fit: that read is \<open>file_read\<close>.
\<close>

definition LONG_MAX :: int where
  "LONG_MAX = 2 ^ 63 - 1"

definition fits_c_long :: "int \<Rightarrow> bool" where
  "fits_c_long n \<longleftrightarrow> - LONG_MAX - 1 \<le> n \<and> n \<le> LONG_MAX"

definition file_object_read :: "bool \<Rightarrow> bytes \<Rightarrow> int \<Rightarrow> error + (bytes \<times> bytes)" where
  "file_object_read c_long f n =
     (if c_long \<and> \<not> fits_c_long n then Inl (Raised (OtherException ''OverflowError''))
      else Inr (file_read f n))"

lemma LONG_MAX_pos: "0 < LONG_MAX" "1024 * 1024 \<le> LONG_MAX"
  by (simp_all add: LONG_MAX_def)

lemma fits_c_long_range: "0 \<le> n \<Longrightarrow> n \<le> LONG_MAX \<Longrightarrow> fits_c_long n"
  using LONG_MAX_pos(1) by (simp add: fits_c_long_def)

text \<open>Python's slice \<open>xs[i:j]\<close> and \<open>xs[i:]\<close>, negative indices counting from the end.\<close>

definition py_index :: "nat \<Rightarrow> int \<Rightarrow> nat" where
  "py_index n i = (if i < 0 then nat (max 0 (int n + i)) else min (nat i) n)"

definition py_slice :: "'a list \<Rightarrow> int \<Rightarrow> int \<Rightarrow> 'a list" where
  "py_slice xs i j =
     (let a = py_index (length xs) i; b = py_index (length xs) j
      in take (b - a) (drop a xs))"

definition py_slice_from :: "'a list \<Rightarrow> int \<Rightarrow> 'a list" where
  "py_slice_from xs i = drop (py_index (length xs) i) xs"

subsection \<open>The buffered decompressor \<open>_CompressedFile\<close>\<close>

text \<open>
  A decompression function is a bound method of a stateful decompressor object: it takes
  the decompressor's state and a chunk and returns the decompressed chunk and the new state.
\<close>

type_synonym 'd decompress = "'d \<Rightarrow> bytes \<Rightarrow> bytes \<times> 'd"

record 'd compressed_file =
  cf_file_obj :: bytes
  cf_decompress_func :: "'d decompress option"
  cf_decompressor :: 'd
  cf_chunk_size :: int
  cf_pos :: int
  cf_buffer :: bytes
  cf_buffer_pos :: int
  cf_eof :: bool

text \<open>\<open>__init__\<close>: a chunk size that is absent or zero selects the default of 128 KiB.\<close>

definition CompressedFile_init ::
  "bytes \<Rightarrow> 'd decompress option \<Rightarrow> 'd \<Rightarrow> int option \<Rightarrow> 'd compressed_file" where
  "CompressedFile_init file_obj decompress_func d chunk_size =
     \<lparr> cf_file_obj = file_obj,
       cf_decompress_func = decompress_func,
       cf_decompressor = d,
       cf_chunk_size = (case chunk_size of
                          None \<Rightarrow> 128 * 1024
                        | Some c \<Rightarrow> if c \<noteq> 0 then c else 128 * 1024),
       cf_pos = 0,
       cf_buffer = [],
       cf_buffer_pos = 0,
       cf_eof = False \<rparr>"

definition read_from_buffer ::
  "'d compressed_file \<Rightarrow> int \<Rightarrow> bytes \<times> 'd compressed_file" where
  "read_from_buffer s len =
     (let buffer_len = int (length (cf_buffer s)) in
      if buffer_len - cf_buffer_pos s > len
      then (py_slice (cf_buffer s) (cf_buffer_pos s) (cf_buffer_pos s + len),
            s\<lparr>cf_buffer_pos := cf_buffer_pos s + len\<rparr>)
      else (py_slice_from (cf_buffer s) (cf_buffer_pos s),
            s\<lparr>cf_buffer := [], cf_buffer_pos := 0\<rparr>))"

text \<open>
  One call of \<open>self._decompress_func(buf)\<close>, when there is a function; the flag tells
  whether the loop takes its \<open>continue\<close> (a function is set and it returned nothing).
\<close>

definition decompress_chunk ::
  "'d compressed_file \<Rightarrow> bytes \<Rightarrow> bool \<times> bytes \<times> 'd compressed_file" where
  "decompress_chunk s buf =
     (case cf_decompress_func s of
        None \<Rightarrow> (False, buf, s)
      | Some f \<Rightarrow> (case f (cf_decompressor s) buf of
                    (out, d') \<Rightarrow> (out = [], out, s\<lparr>cf_decompressor := d'\<rparr>)))"

lemma file_read_shorter:
  "file_read f n = (buf, f') \<Longrightarrow> buf \<noteq> [] \<Longrightarrow> length f' < length f"
  by (auto simp: file_read_def split: if_splits)

lemma decompress_chunk_file_obj:
  "decompress_chunk s buf = (c, out, s') \<Longrightarrow> cf_file_obj s' = cf_file_obj s"
  by (auto simp: decompress_chunk_def split: option.splits prod.splits)

text \<open>The \<open>while size > 0\<close> loop of \<open>read\<close>, with the data accumulated so far.\<close>

function read_loop ::
  "'d compressed_file \<Rightarrow> bytes \<Rightarrow> int \<Rightarrow> error + (bytes \<times> 'd compressed_file)" where
  "read_loop s data sz =
     (if sz > 0 then
        (case file_read (cf_file_obj s) (cf_chunk_size s) of
           (buf, f') \<Rightarrow>
             if buf = [] then Inr (data, s\<lparr>cf_file_obj := f', cf_eof := True\<rparr>)
             else
               (case decompress_chunk (s\<lparr>cf_file_obj := f'\<rparr>) buf of
                  (continue, buf', s') \<Rightarrow>
                    if continue then read_loop s' data sz
                    else if length (cf_buffer s') \<noteq> 0 then Inl AssertionError
                    else if cf_buffer_pos s' \<noteq> 0 then Inl AssertionError
                    else if int (length buf') \<ge> sz then
                      (case read_from_buffer (s'\<lparr>cf_buffer := buf'\<rparr>) sz of
                         (d, s'') \<Rightarrow> read_loop s'' (data @ d) (sz - int (length buf')))
                    else read_loop s' (data @ buf') (sz - int (length buf'))))
      else Inr (data, s))"
  by pat_completeness auto
termination
  by (relation "measure (\<lambda>(s, data, sz). length (cf_file_obj s))")
     (auto simp: read_from_buffer_def Let_def split: if_splits
           dest!: file_read_shorter [OF sym] decompress_chunk_file_obj [OF sym])

declare read_loop.simps [simp del]

definition CompressedFile_read ::
  "'d compressed_file \<Rightarrow> int \<Rightarrow> error + (bytes \<times> 'd compressed_file)" where
  "CompressedFile_read s sz =
     (if \<not> cf_pos s \<ge> 0 then Inl AssertionError
      else if \<not> cf_buffer_pos s \<ge> 0 then Inl AssertionError
      else if \<not> cf_buffer_pos s \<le> int (length (cf_buffer s)) then Inl AssertionError
      else if cf_eof s then Inr ([], s)
      else
        (case read_from_buffer s sz of
           (data, s1) \<Rightarrow>
             (case read_loop s1 data (sz - int (length data)) of
                Inl e \<Rightarrow> Inl e
              | Inr (data', s2) \<Rightarrow>
                  Inr (data', s2\<lparr>cf_pos := cf_pos s2 + int (length data')\<rparr>))))"

section \<open>The forward-seek emulation \<open>_fake_seek_forward\<close>\<close>

text \<open>The values of \<open>os.SEEK_SET\<close> and \<open>os.SEEK_CUR\<close>.\<close>

definition SEEK_SET :: int where "SEEK_SET = 0"
definition SEEK_CUR :: int where "SEEK_CUR = 1"

text \<open>
  The emulation works on any object with a \<open>read\<close> method: the object is a state
  \<open>'s\<close> and its \<open>read(n)\<close> returns the bytes and the new state, or raises.
\<close>

type_synonym 's reader = "'s \<Rightarrow> int \<Rightarrow> error + (bytes \<times> 's)"

text \<open>The \<open>while to_read > 0\<close> loop; it returns what is left of \<open>to_read\<close>.\<close>

function seek_loop :: "'s reader \<Rightarrow> 's \<Rightarrow> int \<Rightarrow> error + (int \<times> 's)" where
  "seek_loop rd file_obj to_read =
     (if to_read > 0 then
        (let chunk_size = min to_read (1024 * 1024) in
         case rd file_obj chunk_size of
           Inl e \<Rightarrow> Inl e
         | Inr (buf, file_obj') \<Rightarrow>
             if buf = [] then Inr (to_read, file_obj')
             else seek_loop rd file_obj' (to_read - int (length buf)))
      else Inr (to_read, file_obj))"
  by pat_completeness auto
termination
  by (relation "measure (\<lambda>(rd, file_obj, to_read). nat to_read)") auto

declare seek_loop.simps [simp del]

definition fake_seek_forward ::
  "'s reader \<Rightarrow> 's \<Rightarrow> int \<Rightarrow> int \<Rightarrow> int \<Rightarrow> error + (int \<times> 's)" where
  "fake_seek_forward rd file_obj cur_pos offset whence =
     (if whence \<noteq> SEEK_SET \<and> whence \<noteq> SEEK_CUR then Inl (InvalidWhence whence)
      else
        (let new_pos = (if whence = SEEK_SET then offset else cur_pos + offset) in
         if new_pos < cur_pos then Inl (BackwardSeek cur_pos new_pos)
         else
           (case seek_loop rd file_obj (new_pos - cur_pos) of
              Inl e \<Rightarrow> Inl e
            | Inr (to_read, file_obj') \<Rightarrow>
                if to_read < 0 then Inl (SeekedTooFar (new_pos - to_read) new_pos)
                else Inr (new_pos - to_read, file_obj'))))"

text \<open>
  \<open>_CompressedFile.seek\<close> and \<open>tell\<close>: the emulation runs on the object itself, from its
  own position counter, and the counter is set to the position the emulation returns.
\<close>

definition CompressedFile_seek ::
  "'d compressed_file \<Rightarrow> int \<Rightarrow> int \<Rightarrow> error + 'd compressed_file" where
  "CompressedFile_seek s offset whence =
     (case fake_seek_forward CompressedFile_read s (cf_pos s) offset whence of
        Inl e \<Rightarrow> Inl e
      | Inr (p, s') \<Rightarrow> Inr (s'\<lparr>cf_pos := p\<rparr>))"

definition CompressedFile_tell :: "'d compressed_file \<Rightarrow> int" where
  "CompressedFile_tell s = cf_pos s"

section \<open>The facade \<open>TransRead\<close>\<close>

subsection \<open>Objects with their own seek\<close>

text \<open>
  A file object of the platform that has \<open>seek\<close> and \<open>tell\<close> of its own (a local file
  opened with \<open>open\<close>; the member stream a tar archive hands out is taken to seek the
  same way): its whole content, its position, and whether its \<open>read\<close> converts the size
  to a C long (a local file does, a tar member stream does not). \<open>read\<close> delivers from
  the position on; \<open>seek\<close> moves the position anywhere at or after the start, relative to
  the start, the position or the end, and raises \<open>IOError\<close> (invalid argument) otherwise.
\<close>

record native_file =
  nf_content :: bytes
  nf_pos :: int
  nf_c_long :: bool

definition SEEK_END :: int where "SEEK_END = 2"

definition native_read :: "native_file \<Rightarrow> int \<Rightarrow> error + (bytes \<times> native_file)" where
  "native_read f n =
     (case file_object_read (nf_c_long f) (drop (nat (nf_pos f)) (nf_content f)) n of
        Inl e \<Rightarrow> Inl e
      | Inr (buf, rest) \<Rightarrow> Inr (buf, f\<lparr>nf_pos := nf_pos f + int (length buf)\<rparr>))"

definition native_seek :: "native_file \<Rightarrow> int \<Rightarrow> int \<Rightarrow> error + native_file" where
  "native_seek f offset whence =
     (let einval = Inl (Raised (IOError ''[Errno 22] Invalid argument''));
          new_pos = (if whence = SEEK_SET then offset
                     else if whence = SEEK_CUR then nf_pos f + offset
                     else int (length (nf_content f)) + offset)
      in if whence \<noteq> SEEK_SET \<and> whence \<noteq> SEEK_CUR \<and> whence \<noteq> SEEK_END then einval
         else if new_pos < 0 then einval
         else Inr (f\<lparr>nf_pos := new_pos\<rparr>))"

definition native_tell :: "native_file \<Rightarrow> int" where
  "native_tell f = nf_pos f"

subsection \<open>The active stream \<open>_transfile_obj\<close>\<close>

text \<open>
  The object \<open>TransRead\<close> reads from is a \<open>_CompressedFile\<close>, an object that only has
  \<open>read\<close> (an HTTP response; the pipe of an SSH child process, which is always read with
  the emulated seek), or an object with its own \<open>seek\<close> and \<open>tell\<close>. An object that
  only has \<open>read\<close> is the bytes it has not delivered yet, with the flag that tells whether
  its \<open>read\<close> converts the size to a C long (the pipe does; an HTTP response does when its
  length is not known and the size reaches the socket).
\<close>

datatype 'd transfile =
    CompressedObj "'d compressed_file"
  | StreamObj bool bytes
  | NativeObj native_file

text \<open>\<open>hasattr(self._transfile_obj, "seek")\<close>, and the same for \<open>"tell"\<close>.\<close>

fun has_seek :: "'d transfile \<Rightarrow> bool" where
  "has_seek (CompressedObj s) = True"
| "has_seek (StreamObj c f) = False"
| "has_seek (NativeObj f) = True"

fun transfile_read :: "'d transfile reader" where
  "transfile_read (CompressedObj s) n =
     (case CompressedFile_read s n of
        Inl e \<Rightarrow> Inl e
      | Inr (buf, s') \<Rightarrow> Inr (buf, CompressedObj s'))"
| "transfile_read (StreamObj c f) n =
     (case file_object_read c f n of
        Inl e \<Rightarrow> Inl e
      | Inr (buf, f') \<Rightarrow> Inr (buf, StreamObj c f'))"
| "transfile_read (NativeObj f) n =
     (case native_read f n of
        Inl e \<Rightarrow> Inl e
      | Inr (buf, f') \<Rightarrow> Inr (buf, NativeObj f'))"

fun transfile_seek :: "'d transfile \<Rightarrow> int \<Rightarrow> int \<Rightarrow> error + 'd transfile" where
  "transfile_seek (CompressedObj s) offset whence =
     (case CompressedFile_seek s offset whence of
        Inl e \<Rightarrow> Inl e
      | Inr s' \<Rightarrow> Inr (CompressedObj s'))"
| "transfile_seek (StreamObj c f) offset whence =
     Inl (Raised (OtherException ''AttributeError''))"
| "transfile_seek (NativeObj f) offset whence =
     (case native_seek f offset whence of
        Inl e \<Rightarrow> Inl e
      | Inr f' \<Rightarrow> Inr (NativeObj f'))"

fun transfile_tell :: "'d transfile \<Rightarrow> error + int" where
  "transfile_tell (CompressedObj s) = Inr (CompressedFile_tell s)"
| "transfile_tell (StreamObj c f) = Inl (Raised (OtherException ''AttributeError''))"
| "transfile_tell (NativeObj f) = Inr (native_tell f)"

subsection \<open>The reader\<close>

text \<open>
  The attributes of a \<open>TransRead\<close> object that \<open>read\<close>, \<open>seek\<close> and \<open>tell\<close> use.
  The raw file object \<open>_file_obj\<close> and the child process are only used to open and to
  close; the raw file object lives on inside the active stream.
\<close>

record 'd trans_read =
  tr_name :: string
  tr_size :: "int option"
  tr_is_compressed :: bool
  tr_is_url :: bool
  tr_force_fake_seek :: bool
  tr_pos :: int
  tr_transfile_obj :: "'d transfile"

definition TransRead_read ::
  "'d trans_read \<Rightarrow> int \<Rightarrow> error + (bytes \<times> 'd trans_read)" where
  "TransRead_read r sz =
     (let sz' = (if sz < 0 then 0xFFFFFFFFFFFFFFFF else sz) in
      case transfile_read (tr_transfile_obj r) sz' of
        Inl e \<Rightarrow> Inl e
      | Inr (buf, t') \<Rightarrow>
          Inr (buf, r\<lparr>tr_transfile_obj := t', tr_pos := tr_pos r + int (length buf)\<rparr>))"

definition TransRead_seek :: "'d trans_read \<Rightarrow> int \<Rightarrow> int \<Rightarrow> error + 'd trans_read" where
  "TransRead_seek r offset whence =
     (if tr_force_fake_seek r \<or> \<not> has_seek (tr_transfile_obj r) then
        (case fake_seek_forward transfile_read (tr_transfile_obj r) (tr_pos r) offset whence of
           Inl e \<Rightarrow> Inl e
         | Inr (p, t') \<Rightarrow> Inr (r\<lparr>tr_pos := p, tr_transfile_obj := t'\<rparr>))
      else
        (case transfile_seek (tr_transfile_obj r) offset whence of
           Inl e \<Rightarrow> Inl e
         | Inr t' \<Rightarrow> Inr (r\<lparr>tr_transfile_obj := t'\<rparr>)))"

definition TransRead_tell :: "'d trans_read \<Rightarrow> error + int" where
  "TransRead_tell r =
     (if tr_force_fake_seek r \<or> \<not> has_seek (tr_transfile_obj r) then Inr (tr_pos r)
      else transfile_tell (tr_transfile_obj r))"

subsection \<open>Opening: \<open>_open_compressed_file\<close>\<close>

text \<open>\<open>name.endswith(suffix)\<close>.\<close>

definition endswith :: "string \<Rightarrow> string \<Rightarrow> bool" where
  "endswith name suf \<longleftrightarrow>
     length suf \<le> length name \<and> drop (length name - length suf) name = suf"

text \<open>
  What the libraries do when \<open>_open_compressed_file\<close> calls them; each call either
  raises or returns.
  \<^item> \<open>tar_first_member\<close>: \<open>tarfile.open\<close> on the raw file object in streaming mode,
    \<open>next()\<close> and \<open>extractfile\<close>: the stream of the first member and the member's
    \<open>size\<close>;
  \<^item> \<open>zlib_decompressobj\<close> and \<open>bz2_decompressor\<close>: the \<open>decompress\<close> method of a new
    decompressor object, and the object's initial state;
  \<^item> \<open>fstat_st_size\<close>: the size \<open>os.fstat\<close> reports for the raw file;
  \<^item> \<open>http_c_long\<close>: whether the \<open>read\<close> of the HTTP response that \<open>urllib2\<close> opened
    converts the size to a C long.
\<close>

record 'd libs =
  tar_first_member :: "bytes \<Rightarrow> py_exception + (native_file \<times> int)"
  zlib_decompressobj :: "py_exception + ('d decompress \<times> 'd)"
  bz2_decompressor :: "py_exception + ('d decompress \<times> 'd)"
  fstat_st_size :: int
  http_c_long :: bool

text \<open>The \<open>except IOError\<close> clause: an \<open>IOError\<close> becomes the module's \<open>Error\<close>
  with the name and the cause; an exception of another class is not caught.\<close>

fun except_IOError :: "string \<Rightarrow> py_exception \<Rightarrow> error" where
  "except_IOError name (IOError msg) = CannotOpenFile name (IOError msg)"
| "except_IOError name (OtherException msg) = Raised (OtherException msg)"

text \<open>
  \<open>_open_compressed_file\<close>, on the attributes \<open>__init__\<close> has set (\<open>size\<close> is
  \<open>None\<close>, \<open>is_compressed\<close> is true, the position is 0; \<open>is_url\<close> and the forced
  emulation come from how the raw file object was opened). The raw file object is the list
  of its bytes. A raw file object that is not a URL is a local file; one that is a URL is
  the pipe of an SSH child process when the emulation is forced and an HTTP response
  otherwise. The active stream is
  \<open>None\<close> before the call and every branch that returns sets it, so the value it has in
  \<open>self\<close> below is never seen.
\<close>

definition open_compressed_file ::
  "'d libs \<Rightarrow> string \<Rightarrow> bool \<Rightarrow> bool \<Rightarrow> bytes \<Rightarrow> error + 'd trans_read" where
  "open_compressed_file libs name is_url force_fake_seek file_obj =
     (let self = \<lparr> tr_name = name, tr_size = None, tr_is_compressed = True,
                    tr_is_url = is_url, tr_force_fake_seek = force_fake_seek, tr_pos = 0,
                    tr_transfile_obj = StreamObj False file_obj \<rparr> in
      if endswith name ''.tar.gz'' \<or> endswith name ''.tar.bz2'' \<or> endswith name ''.tgz'' then
        (case tar_first_member libs file_obj of
           Inl err \<Rightarrow> Inl (except_IOError name err)
         | Inr (member_stream, member_size) \<Rightarrow>
             Inr (self\<lparr>tr_transfile_obj := NativeObj member_stream,
                       tr_size := Some member_size\<rparr>))
      else if endswith name ''.gz'' then
        (case zlib_decompressobj libs of
           Inl err \<Rightarrow> Inl (except_IOError name err)
         | Inr (decompress, d) \<Rightarrow>
             Inr (self\<lparr>tr_transfile_obj :=
                         CompressedObj (CompressedFile_init file_obj (Some decompress) d None)\<rparr>))
      else if endswith name ''.bz2'' then
        (case bz2_decompressor libs of
           Inl err \<Rightarrow> Inl (except_IOError name err)
         | Inr (decompress, d) \<Rightarrow>
             Inr (self\<lparr>tr_transfile_obj :=
                         CompressedObj (CompressedFile_init file_obj (Some decompress) d (Some 128))\<rparr>))
      else
        Inr (self\<lparr>tr_is_compressed := False,
                  tr_transfile_obj :=
                    (if is_url then StreamObj (force_fake_seek \<or> http_c_long libs) file_obj
                     else NativeObj \<lparr>nf_content = file_obj, nf_pos = 0, nf_c_long = True\<rparr>),
                  tr_size := (if \<not> is_url then Some (fstat_st_size libs) else None)\<rparr>))"

section \<open>The specification's reference definitions\<close>

text \<open>
  One-shot decompression, as the specification words it: the raw bytes are cut into
  successive chunks of the chunk size, the decompression function is applied to each chunk in
  turn (threading the decompressor's state), and the results are concatenated in order.
\<close>

function successive_chunks :: "nat \<Rightarrow> 'a list \<Rightarrow> 'a list list" where
  "successive_chunks n xs =
     (if n = 0 \<or> xs = [] then [] else take n xs # successive_chunks n (drop n xs))"
  by pat_completeness auto
termination
  by (relation "measure (\<lambda>(n, xs). length xs)") auto

declare successive_chunks.simps [simp del]

fun decompress_each :: "'d decompress \<Rightarrow> 'd \<Rightarrow> bytes list \<Rightarrow> bytes" where
  "decompress_each f d [] = []"
| "decompress_each f d (c # cs) = (case f d c of (out, d') \<Rightarrow> out @ decompress_each f d' cs)"

text \<open>
  The format table as the specification gives it: the suffixes in the listed order, each with
  its format; the first suffix the name ends with decides, and a name that ends with none of
  them is plain.
\<close>

datatype format = TarFirstMember | Gzip | Bzip2 | Plain

definition format_table :: "(string \<times> format) list" where
  "format_table =
     [(''.tar.gz'', TarFirstMember), (''.tar.bz2'', TarFirstMember), (''.tgz'', TarFirstMember),
      (''.gz'', Gzip), (''.bz2'', Bzip2)]"

fun classify :: "(string \<times> format) list \<Rightarrow> string \<Rightarrow> format" where
  "classify [] name = Plain"
| "classify ((suf, fmt) # rest) name = (if endswith name suf then fmt else classify rest name)"

section \<open>Lemmas about the buffered decompressor\<close>

subsection \<open>The logical stream of a buffered decompressor\<close>

text \<open>
  What the loop of \<open>read\<close> would still produce from the raw source: the raw source is
  read chunk by chunk, as the loop does, until a read returns nothing, and each chunk goes
  through the decompression function.
\<close>

function decompress_rest :: "'d decompress option \<Rightarrow> 'd \<Rightarrow> int \<Rightarrow> bytes \<Rightarrow> bytes" where
  "decompress_rest f d cs raw =
     (case file_read raw cs of
        (buf, raw') \<Rightarrow>
          if buf = [] then []
          else (case f of
                  None \<Rightarrow> buf @ decompress_rest f d cs raw'
                | Some g \<Rightarrow> (case g d buf of (out, d') \<Rightarrow> out @ decompress_rest f d' cs raw')))"
  by pat_completeness auto
termination
  by (relation "measure (\<lambda>(f, d, cs, raw). length raw)")
     (auto dest!: file_read_shorter [OF sym])

declare decompress_rest.simps [simp del]

text \<open>
  The bytes a decompressor has not delivered yet: the unread part of its internal buffer,
  then what the raw source will decompress to.
\<close>

definition pending :: "'d compressed_file \<Rightarrow> bytes" where
  "pending s = decompress_rest (cf_decompress_func s) (cf_decompressor s) (cf_chunk_size s) (cf_file_obj s)"

definition unread :: "'d compressed_file \<Rightarrow> bytes" where
  "unread s = drop (nat (cf_buffer_pos s)) (cf_buffer s) @ pending s"

lemma pending_unfold:
  "pending s =
     (case file_read (cf_file_obj s) (cf_chunk_size s) of
        (buf, f') \<Rightarrow>
          if buf = [] then []
          else (case decompress_chunk (s\<lparr>cf_file_obj := f'\<rparr>) buf of
                  (c, out, s') \<Rightarrow> out @ pending s'))"
  unfolding pending_def
  by (subst decompress_rest.simps)
     (auto simp: decompress_chunk_def split: prod.splits option.splits)

lemma decompress_chunk_fields:
  assumes "decompress_chunk s buf = (c, out, s')"
  shows "cf_file_obj s' = cf_file_obj s" "cf_chunk_size s' = cf_chunk_size s"
    "cf_decompress_func s' = cf_decompress_func s" "cf_pos s' = cf_pos s"
    "cf_buffer s' = cf_buffer s" "cf_buffer_pos s' = cf_buffer_pos s" "cf_eof s' = cf_eof s"
    "c \<Longrightarrow> out = []"
  using assms by (auto simp: decompress_chunk_def split: option.splits prod.splits)

text \<open>The state the loop of \<open>read\<close> leaves, when it starts with an empty buffer.\<close>

definition loop_post :: "'d compressed_file \<Rightarrow> int \<Rightarrow> 'd compressed_file \<Rightarrow> bool" where
  "loop_post s sz s' \<longleftrightarrow>
     unread s' = drop (nat sz) (pending s) \<and>
     0 \<le> cf_buffer_pos s' \<and> cf_buffer_pos s' \<le> int (length (cf_buffer s')) \<and>
     cf_pos s' = cf_pos s \<and> cf_chunk_size s' = cf_chunk_size s \<and>
     cf_decompress_func s' = cf_decompress_func s \<and>
     (cf_eof s' \<longleftrightarrow> int (length (pending s)) < sz) \<and>
     (cf_eof s' \<longrightarrow> cf_buffer s' = [] \<and> (cf_chunk_size s \<noteq> 0 \<longrightarrow> cf_file_obj s' = []))"

lemma read_loop_result:
  "cf_buffer s = [] \<Longrightarrow> cf_buffer_pos s = 0 \<Longrightarrow> \<not> cf_eof s \<Longrightarrow>
   \<exists>s'. read_loop s data sz = Inr (data @ take (nat sz) (pending s), s') \<and> loop_post s sz s'"
proof (induction s data sz rule: read_loop.induct)
  case (1 s data sz)
  show ?case
  proof (cases "sz > 0")
    case False
    then show ?thesis using 1(4-6)
      by (subst read_loop.simps) (simp add: loop_post_def unread_def)
  next
    case pos: True
    obtain buf f' where fr: "file_read (cf_file_obj s) (cf_chunk_size s) = (buf, f')"
      by (cases "file_read (cf_file_obj s) (cf_chunk_size s)")
    show ?thesis
    proof (cases "buf = []")
      case True
      have p: "pending s = []" using fr True by (subst pending_unfold) simp
      have f: "cf_chunk_size s \<noteq> 0 \<Longrightarrow> f' = []"
        using fr True by (auto simp: file_read_def split: if_splits)
      have pe: "pending (s\<lparr>cf_file_obj := f', cf_eof := True\<rparr>) = []"
        using fr True
        by (subst pending_unfold) (auto simp: file_read_def split: if_splits)
      show ?thesis using pos fr True 1(4-6) p f pe
        by (subst read_loop.simps) (simp add: loop_post_def unread_def)
    next
      case ne: False
      obtain c buf' s1 where dc: "decompress_chunk (s\<lparr>cf_file_obj := f'\<rparr>) buf = (c, buf', s1)"
        by (cases "decompress_chunk (s\<lparr>cf_file_obj := f'\<rparr>) buf")
      note fl = decompress_chunk_fields [OF dc]
      have p: "pending s = buf' @ pending s1"
        using fr ne dc by (subst pending_unfold) simp
      have s1: "cf_buffer s1 = []" "cf_buffer_pos s1 = 0" "\<not> cf_eof s1"
        using fl 1(4-6) by simp_all
      show ?thesis
      proof (cases c)
        case True
        from "1.IH"(1) [OF pos fr [symmetric] ne dc [symmetric] _ True s1]
        obtain s' where r: "read_loop s1 data sz = Inr (data @ take (nat sz) (pending s1), s')"
          and lp: "loop_post s1 sz s'" by auto
        have "read_loop s data sz = read_loop s1 data sz"
          using pos fr ne dc True by (subst read_loop.simps) simp
        moreover have "pending s = pending s1" using p fl(8) True by simp
        ultimately show ?thesis using r lp fl by (auto simp: loop_post_def)
      next
        case nc: False
        show ?thesis
        proof (cases "int (length buf') \<ge> sz")
          case ge: True
          obtain d s2 where rb: "read_from_buffer (s1\<lparr>cf_buffer := buf'\<rparr>) sz = (d, s2)"
            by (cases "read_from_buffer (s1\<lparr>cf_buffer := buf'\<rparr>) sz")
          have d: "d = take (nat sz) buf'"
            and u2: "unread s2 = drop (nat sz) buf' @ pending s1"
            and f2: "0 \<le> cf_buffer_pos s2" "cf_buffer_pos s2 \<le> int (length (cf_buffer s2))"
              "cf_pos s2 = cf_pos s1" "cf_chunk_size s2 = cf_chunk_size s1"
              "cf_decompress_func s2 = cf_decompress_func s1" "\<not> cf_eof s2"
            using rb ge pos s1
            by (auto simp: read_from_buffer_def Let_def py_slice_def py_slice_from_def
                py_index_def unread_def pending_def split: if_splits)
          have "read_loop s data sz = read_loop s2 (data @ d) (sz - int (length buf'))"
            using pos fr ne dc nc ge s1 rb by (subst read_loop.simps) simp
          also have "\<dots> = Inr (data @ d, s2)"
            using ge by (subst read_loop.simps) simp
          finally have r: "read_loop s data sz = Inr (data @ d, s2)" .
          show ?thesis using r d u2 f2 p ge pos fl
            by (auto simp: loop_post_def unread_def)
        next
          case lt: False
          from "1.IH"(3) [OF pos fr [symmetric] ne dc [symmetric] _ nc _ _ lt s1]
          obtain s' where r: "read_loop s1 (data @ buf') (sz - int (length buf')) =
                Inr ((data @ buf') @ take (nat (sz - int (length buf'))) (pending s1), s')"
            and lp: "loop_post s1 (sz - int (length buf')) s'" using s1 by auto
          have "read_loop s data sz = read_loop s1 (data @ buf') (sz - int (length buf'))"
            using pos fr ne dc nc lt s1 by (subst read_loop.simps) simp
          moreover have "nat sz - length buf' = nat (sz - int (length buf'))" by simp
          ultimately show ?thesis using r lp fl p lt
            by (auto simp: loop_post_def)
        qed
      qed
    qed
  qed
qed

subsection \<open>What \<open>read\<close> returns\<close>

text \<open>The three assertions at the head of \<open>read\<close>.\<close>

definition asserts_ok :: "'d compressed_file \<Rightarrow> bool" where
  "asserts_ok s \<longleftrightarrow>
     cf_pos s \<ge> 0 \<and> cf_buffer_pos s \<ge> 0 \<and> cf_buffer_pos s \<le> int (length (cf_buffer s))"

text \<open>The state a call \<open>read(n)\<close> leaves, for \<open>n\<close> not negative.\<close>

definition read_post :: "'d compressed_file \<Rightarrow> int \<Rightarrow> 'd compressed_file \<Rightarrow> bool" where
  "read_post s n s' \<longleftrightarrow>
     unread s' = drop (nat n) (unread s) \<and>
     asserts_ok s' \<and>
     cf_pos s' = cf_pos s + int (length (take (nat n) (unread s))) \<and>
     cf_chunk_size s' = cf_chunk_size s \<and>
     cf_decompress_func s' = cf_decompress_func s \<and>
     (cf_eof s' \<longleftrightarrow> int (length (unread s)) < n) \<and>
     (cf_eof s' \<longrightarrow> cf_buffer s' = [] \<and> (cf_chunk_size s \<noteq> 0 \<longrightarrow> cf_file_obj s' = []))"

lemma read_from_buffer_result:
  assumes "0 \<le> n" "0 \<le> cf_buffer_pos s" "cf_buffer_pos s \<le> int (length (cf_buffer s))"
  shows "read_from_buffer s n =
     (take (nat n) (drop (nat (cf_buffer_pos s)) (cf_buffer s)),
      if int (length (cf_buffer s)) - cf_buffer_pos s > n
      then s\<lparr>cf_buffer_pos := cf_buffer_pos s + n\<rparr>
      else s\<lparr>cf_buffer := [], cf_buffer_pos := 0\<rparr>)"
  using assms
  by (auto simp: read_from_buffer_def Let_def py_slice_def py_slice_from_def py_index_def
      min_def nat_add_distrib)

lemma read_result_weak:
  assumes ok: "asserts_ok s" and ne: "\<not> cf_eof s" and n: "0 \<le> n"
  shows "\<exists>s'. CompressedFile_read s n = Inr (take (nat n) (unread s), s') \<and> read_post s n s'"
proof -
  let ?bp = "nat (cf_buffer_pos s)"
  let ?rest = "drop ?bp (cf_buffer s)"
  have bp: "0 \<le> cf_buffer_pos s" "cf_buffer_pos s \<le> int (length (cf_buffer s))"
    and pos: "0 \<le> cf_pos s"
    using ok by (simp_all add: asserts_ok_def)
  note rb = read_from_buffer_result [OF n bp]
  show ?thesis
  proof (cases "int (length (cf_buffer s)) - cf_buffer_pos s > n")
    case True
    let ?s1 = "s\<lparr>cf_buffer_pos := cf_buffer_pos s + n\<rparr>"
    have len: "length (take (nat n) ?rest) = nat n" using True bp n by auto
    have loop: "read_loop ?s1 (take (nat n) ?rest) (n - int (length (take (nat n) ?rest)))
                  = Inr (take (nat n) ?rest, ?s1)"
      using len n by (subst read_loop.simps) simp
    have r: "CompressedFile_read s n =
        Inr (take (nat n) ?rest, ?s1\<lparr>cf_pos := cf_pos s + int (nat n)\<rparr>)"
      using bp pos ne True rb loop len by (simp add: CompressedFile_read_def)
    have t: "take (nat n) (unread s) = take (nat n) ?rest"
      using True bp n by (simp add: unread_def)
    have "read_post s n (?s1\<lparr>cf_pos := cf_pos s + int (nat n)\<rparr>)"
      using True bp n pos ne
      by (auto simp: read_post_def unread_def pending_def asserts_ok_def nat_add_distrib
          add.commute)
    then show ?thesis using r t by auto
  next
    case False
    let ?s1 = "s\<lparr>cf_buffer := [], cf_buffer_pos := 0\<rparr>"
    let ?k = "n - int (length ?rest)"
    have k: "0 \<le> ?k" using False bp by auto
    have ps: "pending ?s1 = pending s" by (simp add: pending_def)
    from read_loop_result [of ?s1 ?rest ?k] ne
    obtain s2 where l: "read_loop ?s1 ?rest ?k = Inr (?rest @ take (nat ?k) (pending s), s2)"
      and lp: "loop_post ?s1 ?k s2" using ps by auto
    have t: "take (nat n) (unread s) = ?rest @ take (nat ?k) (pending s)"
      using False bp n by (auto simp: unread_def nat_diff_distrib)
    have r: "CompressedFile_read s n =
        Inr (take (nat n) (unread s), s2\<lparr>cf_pos := cf_pos s2 + int (length (take (nat n) (unread s)))\<rparr>)"
      using bp pos ne False rb l t by (simp add: CompressedFile_read_def)
    have d: "drop (nat n) (unread s) = drop (nat ?k) (pending s)"
      using False bp n by (auto simp: unread_def nat_diff_distrib)
    have e: "int (length (unread s)) < n \<longleftrightarrow> int (length (pending s)) < ?k"
      using bp by (auto simp: unread_def)
    have "read_post s n (s2\<lparr>cf_pos := cf_pos s2 + int (length (take (nat n) (unread s)))\<rparr>)"
      using lp d e pos ps
      by (auto simp: read_post_def loop_post_def asserts_ok_def unread_def pending_def)
    then show ?thesis using r by auto
  qed
qed

text \<open>
  The invariant of a decompressor object: the assertions of \<open>read\<close> hold, the chunk size
  is not zero (the constructor replaces zero by the default), and once the end-of-file flag is
  set the raw source and the buffer are empty. The constructor establishes it
  (\<open>cf_inv_init\<close>); \<open>read\<close> with a size that is not negative and \<open>seek\<close> keep it
  (\<open>read_result\<close>, \<open>CompressedFile_seek_success\<close>). \<open>TransRead.read\<close> and the seek
  emulation never pass a negative size; a direct \<open>read\<close> with a negative size can leave
  a negative buffer position, on which the next \<open>read\<close> fails its assertion
  (\<open>read_negative\<close>).
\<close>

definition cf_inv :: "'d compressed_file \<Rightarrow> bool" where
  "cf_inv s \<longleftrightarrow>
     asserts_ok s \<and> cf_chunk_size s \<noteq> 0 \<and>
     (cf_eof s \<longrightarrow> cf_file_obj s = [] \<and> cf_buffer s = [])"

lemma pending_empty: "cf_file_obj s = [] \<Longrightarrow> pending s = []"
  by (subst pending_unfold) (simp add: file_read_def)

lemma cf_inv_init: "cf_inv (CompressedFile_init file_obj f d chunk_size)"
  by (simp add: cf_inv_def asserts_ok_def CompressedFile_init_def split: option.splits)

lemma unread_init:
  "unread (CompressedFile_init file_obj f d chunk_size) =
     decompress_rest f d (cf_chunk_size (CompressedFile_init file_obj f d chunk_size :: 'd compressed_file)) file_obj"
  by (simp add: unread_def pending_def CompressedFile_init_def)

lemma read_eof: "asserts_ok s \<Longrightarrow> cf_eof s \<Longrightarrow> CompressedFile_read s n = Inr ([], s)"
  by (simp add: CompressedFile_read_def asserts_ok_def)

lemma read_result:
  assumes inv: "cf_inv s" and n: "0 \<le> n"
  shows "\<exists>s'. CompressedFile_read s n = Inr (take (nat n) (unread s), s') \<and>
      unread s' = drop (nat n) (unread s) \<and> cf_inv s' \<and>
      cf_pos s' = cf_pos s + int (length (take (nat n) (unread s))) \<and>
      cf_chunk_size s' = cf_chunk_size s \<and>
      cf_decompress_func s' = cf_decompress_func s \<and>
      (cf_eof s' \<longleftrightarrow> cf_eof s \<or> int (length (unread s)) < n)"
proof (cases "cf_eof s")
  case True
  then have "unread s = []" using inv by (simp add: cf_inv_def unread_def pending_empty)
  then show ?thesis using read_eof [of s n] True inv by (simp add: cf_inv_def)
next
  case False
  from read_result_weak [OF _ False n] inv
  obtain s' where "CompressedFile_read s n = Inr (take (nat n) (unread s), s')"
    and "read_post s n s'" by (auto simp: cf_inv_def)
  then show ?thesis using inv False by (auto simp: read_post_def cf_inv_def)
qed

lemma read_ok_asserts:
  "CompressedFile_read s n = Inr (d, s') \<Longrightarrow> asserts_ok s"
  by (auto simp: CompressedFile_read_def asserts_ok_def split: if_splits)

lemma read_nonempty_not_eof:
  "CompressedFile_read s n = Inr (d, s') \<Longrightarrow> d \<noteq> [] \<Longrightarrow> \<not> cf_eof s"
  by (auto simp: CompressedFile_read_def split: if_splits)

lemma read_negative:
  assumes "CompressedFile_read s n = Inr (d, s')" "n < 0" "d \<noteq> []"
  shows "\<not> asserts_ok s'"
proof -
  have ok: "asserts_ok s" and ne: "\<not> cf_eof s"
    using assms read_ok_asserts read_nonempty_not_eof by blast+
  let ?d = "py_slice (cf_buffer s) (cf_buffer_pos s) (cf_buffer_pos s + n)"
  let ?s1 = "s\<lparr>cf_buffer_pos := cf_buffer_pos s + n\<rparr>"
  have rb: "read_from_buffer s n = (?d, ?s1)"
    using ok assms(2) by (auto simp: read_from_buffer_def asserts_ok_def)
  have "read_loop ?s1 ?d (n - int (length ?d)) = Inr (?d, ?s1)"
    using assms(2) by (subst read_loop.simps) simp
  then have r: "d = ?d" "cf_buffer_pos s' = cf_buffer_pos s + n"
    using assms(1) ok ne rb by (auto simp: CompressedFile_read_def asserts_ok_def)
  have "cf_buffer_pos s + n < 0"
    using r(1) assms(2,3) ok
    by (auto simp: py_slice_def py_index_def Let_def asserts_ok_def min_def split: if_splits)
  then show ?thesis using r(2) by (simp add: asserts_ok_def)
qed

subsection \<open>Reading until the end\<close>

text \<open>
  The caller's loop, as in \<open>_create_local_copy\<close>: call \<open>read(n)\<close> until it returns
  nothing, and concatenate what it returned. Each call that returns something leaves fewer
  bytes undelivered, or, for a negative \<open>n\<close>, a state whose next \<open>read\<close> fails.
\<close>

definition drain_measure :: "'d compressed_file \<Rightarrow> nat" where
  "drain_measure s = (if asserts_ok s \<and> \<not> cf_eof s then Suc (length (unread s)) else 0)"

lemma read_drain_measure:
  assumes r: "CompressedFile_read s n = Inr (d, s')" and d: "d \<noteq> []"
  shows "drain_measure s' < drain_measure s"
proof -
  have ok: "asserts_ok s" and ne: "\<not> cf_eof s"
    using assms read_ok_asserts read_nonempty_not_eof by blast+
  show ?thesis
  proof (cases "n < 0")
    case True
    then show ?thesis using read_negative [OF r True d] ok ne by (simp add: drain_measure_def)
  next
    case False
    then have n: "0 \<le> n" by simp
    from read_result_weak [OF ok ne n] r
    have "d = take (nat n) (unread s)" "unread s' = drop (nat n) (unread s)"
      by (auto simp: read_post_def)
    then have "length (unread s') < length (unread s)" using d by auto
    then show ?thesis using ok ne by (simp add: drain_measure_def)
  qed
qed

function read_until_empty ::
  "'d compressed_file \<Rightarrow> int \<Rightarrow> bytes \<Rightarrow> error + (bytes \<times> 'd compressed_file)" where
  "read_until_empty s n acc =
     (case CompressedFile_read s n of
        Inl e \<Rightarrow> Inl e
      | Inr (chunk, s') \<Rightarrow>
          if chunk = [] then Inr (acc, s') else read_until_empty s' n (acc @ chunk))"
  by pat_completeness auto
termination
  by (relation "measure (\<lambda>(s, n, acc). drain_measure s)")
     (auto simp: read_drain_measure)

declare read_until_empty.simps [simp del]

lemma read_until_empty_result:
  "cf_inv s \<Longrightarrow> 1 \<le> n \<Longrightarrow> \<exists>s'. read_until_empty s n acc = Inr (acc @ unread s, s')"
proof (induction "length (unread s)" arbitrary: s acc rule: less_induct)
  case less
  from read_result [OF less.prems(1), of n] less.prems(2)
  obtain s1 where r: "CompressedFile_read s n = Inr (take (nat n) (unread s), s1)"
    and u: "unread s1 = drop (nat n) (unread s)" and i: "cf_inv s1" by auto
  show ?case
  proof (cases "take (nat n) (unread s) = []")
    case True
    then have "unread s = []" using less.prems(2) by (auto simp: take_eq_Nil)
    then show ?thesis using r True by (subst read_until_empty.simps) simp
  next
    case False
    then have "length (unread s1) < length (unread s)" using u by auto
    from less.hyps [OF this i less.prems(2), of "acc @ take (nat n) (unread s)"]
    show ?thesis using r u False by (subst read_until_empty.simps) simp
  qed
qed

lemma decompress_rest_chunks:
  "1 \<le> cs \<Longrightarrow>
   decompress_rest (Some f) d cs raw = decompress_each f d (successive_chunks (nat cs) raw)"
proof (induction "length raw" arbitrary: raw d rule: less_induct)
  case less
  show ?case
  proof (cases "raw = []")
    case True
    then show ?thesis
      by (subst decompress_rest.simps, subst successive_chunks.simps) (simp add: file_read_def)
  next
    case False
    obtain out d' where g: "f d (take (nat cs) raw) = (out, d')"
      by (cases "f d (take (nat cs) raw)")
    have "length (drop (nat cs) raw) < length raw" using False less.prems by auto
    from less.hyps [OF this less.prems, of d'] show ?thesis
      using False less.prems g
      by (subst decompress_rest.simps, subst successive_chunks.simps)
         (auto simp: file_read_def)
  qed
qed

section \<open>Lemmas about the forward-seek emulation\<close>

text \<open>The position a seek asks for, when \<open>whence\<close> is one of the two values.\<close>

definition seek_target :: "int \<Rightarrow> int \<Rightarrow> int \<Rightarrow> int" where
  "seek_target cur_pos offset whence = (if whence = SEEK_SET then offset else cur_pos + offset)"

text \<open>
  A reader delivers a stream when, on the states that satisfy \<open>I\<close>, \<open>read(n)\<close> for
  \<open>n\<close> not negative and not above \<open>LONG_MAX\<close> (the emulation asks for 1 MiB at most)
  returns the next \<open>n\<close> bytes of the undelivered bytes \<open>u\<close> (all of them when there are
  fewer), raises nothing and keeps \<open>I\<close>.
\<close>

definition delivers :: "'s reader \<Rightarrow> ('s \<Rightarrow> bool) \<Rightarrow> ('s \<Rightarrow> bytes) \<Rightarrow> bool" where
  "delivers rd I u \<longleftrightarrow>
     (\<forall>s n. I s \<and> 0 \<le> n \<and> n \<le> LONG_MAX \<longrightarrow>
        (\<exists>s'. rd s n = Inr (take (nat n) (u s), s') \<and> u s' = drop (nat n) (u s) \<and> I s'))"

lemma seek_loop_delivers:
  assumes d: "delivers rd I u"
  shows "I s \<Longrightarrow> 0 \<le> t \<Longrightarrow>
     \<exists>s'. seek_loop rd s t = Inr (t - min t (int (length (u s))), s') \<and>
          u s' = drop (nat t) (u s) \<and> I s'"
proof (induction "nat t" arbitrary: s t rule: less_induct)
  case less
  show ?case
  proof (cases "t > 0")
    case False
    then have "t = 0" using less.prems by simp
    then show ?thesis using less.prems by (subst seek_loop.simps) simp
  next
    case True
    let ?c = "min t (1024 * 1024)"
    have c: "0 < ?c" "?c \<le> t" using True by auto
    have "I s \<and> 0 \<le> ?c \<and> ?c \<le> LONG_MAX"
      using less.prems(1) c(1) LONG_MAX_pos(2) by simp
    from d [unfolded delivers_def, rule_format, OF this]
    obtain s1 where r: "rd s ?c = Inr (take (nat ?c) (u s), s1)"
      and u1: "u s1 = drop (nat ?c) (u s)" and i1: "I s1"
      by (elim exE conjE)
    show ?thesis
    proof (cases "take (nat ?c) (u s) = []")
      case e: True
      then have "u s = []" using c(1) by (auto simp: take_eq_Nil)
      then show ?thesis using True r e u1 i1
        by (subst seek_loop.simps) (simp add: Let_def)
    next
      case ne: False
      let ?b = "take (nat ?c) (u s)"
      let ?t' = "t - int (length ?b)"
      have lb: "0 < length ?b" "int (length ?b) \<le> t" using ne c by auto
      then have m: "nat ?t' < nat t" "0 \<le> ?t'" by auto
      from less.hyps [OF m(1) i1 m(2)]
      obtain s' where l: "seek_loop rd s1 ?t' = Inr (?t' - min ?t' (int (length (u s1))), s')"
        and u': "u s' = drop (nat ?t') (u s1)" and i': "I s'" by auto
      have step: "seek_loop rd s t = seek_loop rd s1 ?t'"
        using True r ne by (subst seek_loop.simps) (simp add: Let_def)
      have cnt: "?t' - min ?t' (int (length (u s1))) = t - min t (int (length (u s)))"
      proof (cases "nat ?c \<le> length (u s)")
        case True
        then have "int (length ?b) = ?c" "int (length (u s1)) = int (length (u s)) - ?c"
          using u1 c by simp_all
        then show ?thesis using c by linarith
      next
        case False
        then have "length ?b = length (u s)" "length (u s1) = 0" "int (length (u s)) < t"
          using u1 c by simp_all
        then show ?thesis by simp
      qed
      have dr: "drop (nat ?t') (u s1) = drop (nat t) (u s)"
      proof (cases "nat ?c \<le> length (u s)")
        case True
        then have lb': "length ?b = nat ?c" by simp
        have "nat (t - int (nat ?c)) + nat ?c = nat t" using c by linarith
        then have "drop (nat (t - int (nat ?c))) (drop (nat ?c) (u s)) = drop (nat t) (u s)"
          by (simp only: drop_drop)
        then show ?thesis using u1 lb' by simp
      next
        case False
        then show ?thesis using u1 c by simp
      qed
      have "seek_loop rd s t = Inr (t - min t (int (length (u s))), s')"
        using step l cnt by (simp only:)
      moreover have "u s' = drop (nat t) (u s)" using u' dr by (simp only:)
      ultimately show ?thesis using i' by blast
    qed
  qed
qed

lemma fake_seek_forward_delivers:
  assumes d: "delivers rd I u" and i: "I s"
    and w: "whence = SEEK_SET \<or> whence = SEEK_CUR"
    and f: "cur_pos \<le> seek_target cur_pos offset whence"
  shows "\<exists>s'. fake_seek_forward rd s cur_pos offset whence =
            Inr (cur_pos + min (seek_target cur_pos offset whence - cur_pos) (int (length (u s))), s')
          \<and> u s' = drop (nat (seek_target cur_pos offset whence - cur_pos)) (u s) \<and> I s'"
proof -
  let ?new = "seek_target cur_pos offset whence"
  have t: "0 \<le> ?new - cur_pos" using f by simp
  from seek_loop_delivers [OF d i t]
  obtain s' where l: "seek_loop rd s (?new - cur_pos) =
        Inr (?new - cur_pos - min (?new - cur_pos) (int (length (u s))), s')"
    and u': "u s' = drop (nat (?new - cur_pos)) (u s)" and i': "I s'" by auto
  have nn: "\<not> ?new - cur_pos - min (?new - cur_pos) (int (length (u s))) < 0" by simp
  have ws: "\<not> (whence \<noteq> SEEK_SET \<and> whence \<noteq> SEEK_CUR)" using w by simp
  have nb: "\<not> ?new < cur_pos" using f by simp
  have "fake_seek_forward rd s cur_pos offset whence =
      Inr (?new - (?new - cur_pos - min (?new - cur_pos) (int (length (u s)))), s')"
    unfolding fake_seek_forward_def Let_def seek_target_def [symmetric]
    by (simp only: ws nb l nn if_False sum.case prod.case)
  moreover have "?new - (?new - cur_pos - min (?new - cur_pos) (int (length (u s)))) =
      cur_pos + min (?new - cur_pos) (int (length (u s)))" by simp
  ultimately show ?thesis using u' i' by simp
qed

lemma fake_seek_forward_backward:
  "whence = SEEK_SET \<or> whence = SEEK_CUR \<Longrightarrow> seek_target cur_pos offset whence < cur_pos \<Longrightarrow>
   fake_seek_forward rd s cur_pos offset whence =
     Inl (BackwardSeek cur_pos (seek_target cur_pos offset whence))"
  by (auto simp: fake_seek_forward_def seek_target_def Let_def SEEK_SET_def SEEK_CUR_def)

lemma seek_target_simps [simp]:
  "seek_target cur_pos offset SEEK_SET = offset"
  "seek_target cur_pos offset SEEK_CUR = cur_pos + offset"
  by (simp_all add: seek_target_def SEEK_SET_def SEEK_CUR_def)

text \<open>
  The proviso under which the emulation cannot overshoot: a \<open>read(n)\<close> that succeeds
  returns at most \<open>n\<close> bytes.
\<close>

definition bounded_reads :: "'s reader \<Rightarrow> bool" where
  "bounded_reads rd \<longleftrightarrow>
     (\<forall>s n buf s'. 0 \<le> n \<and> rd s n = Inr (buf, s') \<longrightarrow> int (length buf) \<le> n)"

lemma seek_loop_bounded:
  "bounded_reads rd \<Longrightarrow> 0 \<le> t \<Longrightarrow>
     (case seek_loop rd s t of
        Inl e \<Rightarrow> \<exists>s0 n. rd s0 n = Inl e
      | Inr (t', s') \<Rightarrow> 0 \<le> t' \<and> t' \<le> t)"
proof (induction rd s t rule: seek_loop.induct)
  case (1 rd s t)
  note b = "1.prems"(1)
  show ?case
  proof (cases "t > 0")
    case False
    then show ?thesis using "1.prems"(2) by (subst seek_loop.simps) simp
  next
    case True
    let ?c = "min t (1024 * 1024)"
    have c: "0 \<le> ?c" "?c \<le> t" using True by auto
    show ?thesis
    proof (cases "rd s ?c")
      case (Inl e)
      then show ?thesis using True by (subst seek_loop.simps) (auto simp: Let_def)
    next
      case (Inr p)
      obtain buf s1 where p: "p = (buf, s1)" by (cases p)
      have "rd s ?c = Inr (buf, s1)" using Inr p by simp
      then have lb: "int (length buf) \<le> ?c"
        using b c(1) unfolding bounded_reads_def by blast
      show ?thesis
      proof (cases "buf = []")
        case True
        then show ?thesis using \<open>t > 0\<close> Inr p
          by (subst seek_loop.simps) (simp add: Let_def)
      next
        case False
        have t': "0 \<le> t - int (length buf)" using lb c by linarith
        have step: "seek_loop rd s t = seek_loop rd s1 (t - int (length buf))"
          using \<open>t > 0\<close> Inr p False by (subst seek_loop.simps) (simp add: Let_def)
        from "1.IH" [OF \<open>t > 0\<close> refl Inr p [symmetric] False b t']
        show ?thesis unfolding step
          by (auto split: sum.splits)
      qed
    qed
  qed
qed

lemma fake_seek_forward_success:
  assumes d: "delivers rd I u" and i: "I s"
    and r: "fake_seek_forward rd s cur_pos offset whence = Inr (p, s')"
  shows "\<exists>c. c \<le> length (u s) \<and> p = cur_pos + int c \<and> u s' = drop c (u s) \<and> I s'"
proof -
  have w: "whence = SEEK_SET \<or> whence = SEEK_CUR"
    using r by (auto simp: fake_seek_forward_def split: if_splits)
  have f: "cur_pos \<le> seek_target cur_pos offset whence"
    using r w by (auto simp: fake_seek_forward_def seek_target_def Let_def split: if_splits)
  let ?d = "seek_target cur_pos offset whence - cur_pos"
  from fake_seek_forward_delivers [OF d i w f] r
  have p: "p = cur_pos + min ?d (int (length (u s)))"
    and u: "u s' = drop (nat ?d) (u s)" and i': "I s'" by auto
  let ?c = "min (nat ?d) (length (u s))"
  have "int ?c = min ?d (int (length (u s)))" using f by (auto simp: min_def)
  then have "p = cur_pos + int ?c" using p by (simp only:)
  moreover have "u s' = drop ?c (u s)" using u by (auto simp: min_def)
  ultimately show ?thesis using i' by (intro exI [of _ ?c]) simp
qed

section \<open>Lemmas about the facade\<close>

subsection \<open>The logical stream of an active stream\<close>

text \<open>Whether the \<open>read\<close> of an active stream converts the size to a C long.\<close>

fun tf_c_long :: "'d transfile \<Rightarrow> bool" where
  "tf_c_long (CompressedObj s) = False"
| "tf_c_long (StreamObj c f) = c"
| "tf_c_long (NativeObj f) = nf_c_long f"

text \<open>The sizes the \<open>read\<close> of an active stream takes.\<close>

definition accepts :: "'d transfile \<Rightarrow> int \<Rightarrow> bool" where
  "accepts t n \<longleftrightarrow> (tf_c_long t \<longrightarrow> fits_c_long n)"

text \<open>
  The invariant of an active stream: the invariant of the decompressor; a position that is
  not negative; and a file object of the platform, whose offsets are C longs, holds no more
  than \<open>LONG_MAX\<close> bytes.
\<close>

fun tf_inv :: "'d transfile \<Rightarrow> bool" where
  "tf_inv (CompressedObj s) = cf_inv s"
| "tf_inv (StreamObj c f) = (c \<longrightarrow> int (length f) \<le> LONG_MAX)"
| "tf_inv (NativeObj f) =
     (0 \<le> nf_pos f \<and> (nf_c_long f \<longrightarrow> int (length (nf_content f)) \<le> LONG_MAX))"

fun tf_unread :: "'d transfile \<Rightarrow> bytes" where
  "tf_unread (CompressedObj s) = unread s"
| "tf_unread (StreamObj c f) = f"
| "tf_unread (NativeObj f) = drop (nat (nf_pos f)) (nf_content f)"



lemma transfile_read_rejects:
  "\<not> accepts t n \<Longrightarrow> transfile_read t n = Inl (Raised (OtherException ''OverflowError''))"
  by (cases t) (auto simp: accepts_def file_object_read_def native_read_def)

lemma CompressedFile_read_delivers: "delivers CompressedFile_read cf_inv unread"
  unfolding delivers_def using read_result by blast

lemma transfile_read_result:
  assumes "tf_inv t" "0 \<le> n" "accepts t n"
  shows "\<exists>t'. transfile_read t n = Inr (take (nat n) (tf_unread t), t') \<and>
          tf_unread t' = drop (nat n) (tf_unread t) \<and> tf_inv t'"
proof (cases t)
  case (CompressedObj s)
  with assms read_result [of s n] show ?thesis by auto
next
  case (StreamObj c f)
  with assms show ?thesis by (auto simp: accepts_def file_object_read_def file_read_def)
next
  case (NativeObj f)
  with assms show ?thesis
    by (auto simp: accepts_def file_object_read_def native_read_def file_read_def
        nat_add_distrib min_def add.commute)
qed

lemma transfile_read_delivers: "delivers transfile_read tf_inv tf_unread"
  unfolding delivers_def using transfile_read_result fits_c_long_range
  by (metis accepts_def)

lemma transfile_read_bounded: "bounded_reads transfile_read"
  unfolding bounded_reads_def
proof (intro allI impI, elim conjE)
  fix t :: "'a transfile" and n buf t'
  assume n: "0 \<le> n" and r: "transfile_read t n = Inr (buf, t')"
  show "int (length buf) \<le> n"
  proof (cases t)
    case (CompressedObj s)
    then obtain s' where rs: "CompressedFile_read s n = Inr (buf, s')"
      using r by (auto split: sum.splits)
    show ?thesis
    proof (cases "cf_eof s")
      case True
      then show ?thesis using rs n by (auto simp: CompressedFile_read_def split: if_splits)
    next
      case False
      from read_result_weak [OF read_ok_asserts [OF rs] False n] rs
      have "buf = take (nat n) (unread s)" by auto
      then show ?thesis using n by simp
    qed
  next
    case (StreamObj c f)
    then show ?thesis using r n
      by (auto simp: file_object_read_def file_read_def split: if_splits)
  next
    case (NativeObj f)
    then show ?thesis using r n
      by (auto simp: native_read_def file_object_read_def file_read_def
          split: if_splits sum.splits)
  qed
qed

text \<open>
  The kind of an active stream, and, for a decompressor, its position counter plus the
  number of bytes it has not delivered: reading and seeking keep both.
\<close>

fun tf_level :: "'d transfile \<Rightarrow> int" where
  "tf_level (CompressedObj s) = cf_pos s + int (length (unread s))"
| "tf_level (StreamObj c f) = 0"
| "tf_level (NativeObj f) = 0"

fun is_compressed_obj :: "'d transfile \<Rightarrow> bool" where
  "is_compressed_obj (CompressedObj s) = True"
| "is_compressed_obj (StreamObj c f) = False"
| "is_compressed_obj (NativeObj f) = False"

definition tf_keeps :: "'d transfile \<Rightarrow> 'd transfile \<Rightarrow> bool" where
  "tf_keeps t t' \<longleftrightarrow>
     tf_inv t' \<and> has_seek t' = has_seek t \<and> is_compressed_obj t' = is_compressed_obj t \<and>
     tf_c_long t' = tf_c_long t \<and> tf_level t' = tf_level t"

lemma tf_keeps_refl: "tf_inv t \<Longrightarrow> tf_keeps t t"
  by (simp add: tf_keeps_def)

lemma tf_keeps_trans: "tf_keeps t t' \<Longrightarrow> tf_keeps t' t'' \<Longrightarrow> tf_keeps t t''"
  by (simp add: tf_keeps_def)

lemma transfile_read_keeps:
  assumes "tf_inv t" "0 \<le> n" "accepts t n"
  shows "\<exists>t'. transfile_read t n = Inr (take (nat n) (tf_unread t), t') \<and>
          tf_unread t' = drop (nat n) (tf_unread t) \<and> tf_keeps t t'"
proof (cases t)
  case (CompressedObj s)
  from read_result [of s n] assms CompressedObj
  obtain s' where "CompressedFile_read s n = Inr (take (nat n) (unread s), s')"
    "unread s' = drop (nat n) (unread s)" "cf_inv s'"
    "cf_pos s' = cf_pos s + int (length (take (nat n) (unread s)))" by auto
  then show ?thesis using CompressedObj by (auto simp: tf_keeps_def)
next
  case (StreamObj c f)
  with assms show ?thesis
    by (auto simp: accepts_def file_object_read_def file_read_def tf_keeps_def)
next
  case (NativeObj f)
  with assms show ?thesis
    by (auto simp: accepts_def file_object_read_def native_read_def file_read_def
        nat_add_distrib min_def add.commute tf_keeps_def)
qed

lemma transfile_read_keeps_from:
  assumes k: "tf_keeps t0 t" and n: "0 \<le> n" "n \<le> LONG_MAX"
  shows "\<exists>t'. transfile_read t n = Inr (take (nat n) (tf_unread t), t') \<and>
          tf_unread t' = drop (nat n) (tf_unread t) \<and> tf_keeps t0 t'"
proof -
  have "tf_inv t" using k by (simp add: tf_keeps_def)
  moreover have "accepts t n" using fits_c_long_range [OF n] by (simp add: accepts_def)
  ultimately show ?thesis using transfile_read_keeps [OF _ n(1)] k tf_keeps_trans by blast
qed

lemma transfile_read_delivers_keeps:
  "delivers transfile_read (tf_keeps t0) tf_unread"
  unfolding delivers_def using transfile_read_keeps_from by blast

lemma CompressedFile_seek_success:
  assumes i: "cf_inv s" and r: "CompressedFile_seek s offset whence = Inr s'"
  shows "\<exists>c. c \<le> length (unread s) \<and> cf_pos s' = cf_pos s + int c \<and>
           unread s' = drop c (unread s) \<and> cf_inv s'"
proof -
  from r obtain p s1 where
    f: "fake_seek_forward CompressedFile_read s (cf_pos s) offset whence = Inr (p, s1)"
    and s': "s' = s1\<lparr>cf_pos := p\<rparr>"
    by (auto simp: CompressedFile_seek_def split: sum.splits)
  from fake_seek_forward_success [OF CompressedFile_read_delivers i f]
  obtain c where c: "c \<le> length (unread s)" "p = cf_pos s + int c"
    "unread s1 = drop c (unread s)" "cf_inv s1" by auto
  have "0 \<le> p" using c(2) i by (simp add: cf_inv_def asserts_ok_def)
  then have "cf_inv s'" "unread s' = unread s1"
    using c(4) s' by (simp_all add: cf_inv_def asserts_ok_def unread_def pending_def)
  then show ?thesis using c s' by auto
qed

text \<open>The number of bytes \<open>TransRead.read(n)\<close> asks its active stream for.\<close>

definition effective_size :: "int \<Rightarrow> nat" where
  "effective_size n = nat (if n < 0 then 0xFFFFFFFFFFFFFFFF else n)"

lemma TransRead_read_rejects:
  assumes "\<not> accepts (tr_transfile_obj r) (int (effective_size n))"
  shows "TransRead_read r n = Inl (Raised (OtherException ''OverflowError''))"
proof -
  have sz: "(if n < 0 then 0xFFFFFFFFFFFFFFFF else n) = int (effective_size n)"
    by (simp add: effective_size_def)
  show ?thesis
    unfolding TransRead_read_def Let_def sz transfile_read_rejects [OF assms] by simp
qed

lemma TransRead_read_result:
  fixes n :: int
  defines "m \<equiv> effective_size n"
  assumes i: "tf_inv (tr_transfile_obj r)"
    and ac: "accepts (tr_transfile_obj r) (int m)"
  shows "\<exists>t'. TransRead_read r n =
            Inr (take m (tf_unread (tr_transfile_obj r)),
                 r\<lparr>tr_transfile_obj := t',
                   tr_pos := tr_pos r + int (length (take m (tf_unread (tr_transfile_obj r))))\<rparr>) \<and>
          tf_unread t' = drop m (tf_unread (tr_transfile_obj r)) \<and>
          tf_keeps (tr_transfile_obj r) t' \<and>
          transfile_read (tr_transfile_obj r) (int m) =
            Inr (take m (tf_unread (tr_transfile_obj r)), t')"
proof -
  have m0: "0 \<le> int m" by simp
  from transfile_read_keeps [OF i m0 ac]
  obtain t' where a: "transfile_read (tr_transfile_obj r) (int m) =
      Inr (take m (tf_unread (tr_transfile_obj r)), t')"
    and b: "tf_unread t' = drop m (tf_unread (tr_transfile_obj r))"
    and c: "tf_keeps (tr_transfile_obj r) t'" unfolding nat_int by (elim exE conjE)
  have sz: "(if n < 0 then 0xFFFFFFFFFFFFFFFF else n) = int m"
    by (simp add: m_def effective_size_def)
  have d: "TransRead_read r n =
      Inr (take m (tf_unread (tr_transfile_obj r)),
           r\<lparr>tr_transfile_obj := t',
             tr_pos := tr_pos r + int (length (take m (tf_unread (tr_transfile_obj r))))\<rparr>)"
    unfolding TransRead_read_def Let_def sz a by simp
  show ?thesis by (intro exI [of _ t'] conjI d b c a)
qed






lemma classify_format_table:
  "classify format_table name =
     (if endswith name ''.tar.gz'' \<or> endswith name ''.tar.bz2'' \<or> endswith name ''.tgz''
      then TarFirstMember
      else if endswith name ''.gz'' then Gzip
      else if endswith name ''.bz2'' then Bzip2
      else Plain)"
  by (simp add: format_table_def)

lemma open_compressed_file_by_format:
  "open_compressed_file libs name is_url force file_obj =
     (case classify format_table name of
        TarFirstMember \<Rightarrow>
          (case tar_first_member libs file_obj of
             Inl err \<Rightarrow> Inl (except_IOError name err)
           | Inr (member_stream, member_size) \<Rightarrow>
               Inr \<lparr> tr_name = name, tr_size = Some member_size, tr_is_compressed = True,
                     tr_is_url = is_url, tr_force_fake_seek = force, tr_pos = 0,
                     tr_transfile_obj = NativeObj member_stream \<rparr>)
      | Gzip \<Rightarrow>
          (case zlib_decompressobj libs of
             Inl err \<Rightarrow> Inl (except_IOError name err)
           | Inr (decompress, d) \<Rightarrow>
               Inr \<lparr> tr_name = name, tr_size = None, tr_is_compressed = True,
                     tr_is_url = is_url, tr_force_fake_seek = force, tr_pos = 0,
                     tr_transfile_obj = CompressedObj
                       \<lparr> cf_file_obj = file_obj, cf_decompress_func = Some decompress,
                         cf_decompressor = d, cf_chunk_size = 128 * 1024, cf_pos = 0,
                         cf_buffer = [], cf_buffer_pos = 0, cf_eof = False \<rparr> \<rparr>)
      | Bzip2 \<Rightarrow>
          (case bz2_decompressor libs of
             Inl err \<Rightarrow> Inl (except_IOError name err)
           | Inr (decompress, d) \<Rightarrow>
               Inr \<lparr> tr_name = name, tr_size = None, tr_is_compressed = True,
                     tr_is_url = is_url, tr_force_fake_seek = force, tr_pos = 0,
                     tr_transfile_obj = CompressedObj
                       \<lparr> cf_file_obj = file_obj, cf_decompress_func = Some decompress,
                         cf_decompressor = d, cf_chunk_size = 128, cf_pos = 0,
                         cf_buffer = [], cf_buffer_pos = 0, cf_eof = False \<rparr> \<rparr>)
      | Plain \<Rightarrow>
          Inr \<lparr> tr_name = name,
                tr_size = (if is_url then None else Some (fstat_st_size libs)),
                tr_is_compressed = False,
                tr_is_url = is_url, tr_force_fake_seek = force, tr_pos = 0,
                tr_transfile_obj =
                  (if is_url then StreamObj (force \<or> http_c_long libs) file_obj
                   else NativeObj \<lparr>nf_content = file_obj, nf_pos = 0, nf_c_long = True\<rparr>) \<rparr>)"
  unfolding classify_format_table open_compressed_file_def Let_def
  by (simp add: CompressedFile_init_def split: sum.splits prod.splits)

subsection \<open>Sequences of operations\<close>

text \<open>
  A caller's operations on a reader. A step returns, with the new reader, the number of
  bytes a \<open>read\<close> returned and the number of bytes a \<open>seek\<close> discarded by reading them:
  the bytes by which the undelivered stream got shorter, when the seek is emulated (by
  \<open>TransRead\<close> itself or by the \<open>_CompressedFile\<close> underneath), and none when the seek is
  the file object's own. An operation that raises leaves the reader as it is: the errors a
  reader that satisfies its invariant can raise are raised before anything is read
  (\<open>tr_step_errors\<close> below).
\<close>

datatype operation = Read int | Seek int int

definition seek_emulated :: "'d trans_read \<Rightarrow> bool" where
  "seek_emulated r \<longleftrightarrow>
     tr_force_fake_seek r \<or> \<not> has_seek (tr_transfile_obj r) \<or>
     is_compressed_obj (tr_transfile_obj r)"

fun tr_step :: "'d trans_read \<Rightarrow> operation \<Rightarrow> error + (nat \<times> nat \<times> 'd trans_read)" where
  "tr_step r (Read n) =
     (case TransRead_read r n of
        Inl e \<Rightarrow> Inl e
      | Inr (buf, r') \<Rightarrow> Inr (length buf, 0, r'))"
| "tr_step r (Seek offset whence) =
     (case TransRead_seek r offset whence of
        Inl e \<Rightarrow> Inl e
      | Inr r' \<Rightarrow>
          Inr (0,
               (if seek_emulated r
                then length (tf_unread (tr_transfile_obj r)) -
                     length (tf_unread (tr_transfile_obj r'))
                else 0),
               r'))"

fun tr_run :: "'d trans_read \<Rightarrow> operation list \<Rightarrow> nat \<times> nat \<times> 'd trans_read" where
  "tr_run r [] = (0, 0, r)"
| "tr_run r (x # xs) =
     (case tr_step r x of
        Inl e \<Rightarrow> tr_run r xs
      | Inr (a, b, r') \<Rightarrow> (case tr_run r' xs of (a', b', r'') \<Rightarrow> (a + a', b + b', r'')))"

text \<open>
  \<open>TransRead.seek\<close> hands the seek to the \<open>_CompressedFile\<close> underneath and leaves its own
  counter alone.
\<close>

definition delegates_to_decompressor :: "'d trans_read \<Rightarrow> bool" where
  "delegates_to_decompressor r \<longleftrightarrow>
     \<not> tr_force_fake_seek r \<and> is_compressed_obj (tr_transfile_obj r)"

text \<open>
  What operations that returned \<open>a\<close> bytes and discarded \<open>b\<close> bytes do to the counters.
\<close>

definition counts :: "'d trans_read \<Rightarrow> nat \<Rightarrow> nat \<Rightarrow> 'd trans_read \<Rightarrow> bool" where
  "counts r a b r' \<longleftrightarrow>
     tf_keeps (tr_transfile_obj r) (tr_transfile_obj r') \<and>
     tr_force_fake_seek r' = tr_force_fake_seek r \<and>
     tr_pos r' = tr_pos r + int a + (if delegates_to_decompressor r then 0 else int b) \<and>
     (\<forall>s. tr_transfile_obj r = CompressedObj s \<longrightarrow>
        (\<exists>s'. tr_transfile_obj r' = CompressedObj s' \<and> cf_pos s' = cf_pos s + int a + int b))"

lemma counts_refl: "tf_inv (tr_transfile_obj r) \<Longrightarrow> counts r 0 0 r"
  by (simp add: counts_def tf_keeps_refl)

lemma counts_trans:
  assumes "counts r a b r1" "counts r1 a' b' r2"
  shows "counts r (a + a') (b + b') r2"
proof -
  have d: "delegates_to_decompressor r1 = delegates_to_decompressor r"
    using assms(1) by (simp add: counts_def delegates_to_decompressor_def tf_keeps_def)
  have k: "tf_keeps (tr_transfile_obj r) (tr_transfile_obj r2)"
    using assms tf_keeps_trans by (auto simp: counts_def)
  have c: "\<exists>s'. tr_transfile_obj r2 = CompressedObj s' \<and>
             cf_pos s' = cf_pos s + int (a + a') + int (b + b')"
    if "tr_transfile_obj r = CompressedObj s" for s
  proof -
    from assms(1) that obtain s1 where s1: "tr_transfile_obj r1 = CompressedObj s1"
      "cf_pos s1 = cf_pos s + int a + int b" by (auto simp: counts_def)
    from assms(2) s1(1) obtain s2 where "tr_transfile_obj r2 = CompressedObj s2"
      "cf_pos s2 = cf_pos s1 + int a' + int b'" by (auto simp: counts_def)
    then show ?thesis using s1(2) by simp
  qed
  have p: "tr_pos r2 = tr_pos r + int (a + a') +
      (if delegates_to_decompressor r then 0 else int (b + b'))"
    using assms d by (simp add: counts_def)
  have f: "tr_force_fake_seek r2 = tr_force_fake_seek r"
    using assms by (simp add: counts_def)
  show ?thesis unfolding counts_def using k f p c by blast
qed

lemma tf_keeps_counter:
  assumes k: "tf_keeps t t'" and u: "tf_unread t' = drop c (tf_unread t)"
    and c: "c \<le> length (tf_unread t)" and t: "t = CompressedObj s"
  shows "\<exists>s'. t' = CompressedObj s' \<and> cf_pos s' = cf_pos s + int c"
proof -
  from k t obtain s' where s': "t' = CompressedObj s'"
    by (cases t') (auto simp: tf_keeps_def)
  have "cf_pos s' + int (length (unread s')) = cf_pos s + int (length (unread s))"
    using k t s' by (simp add: tf_keeps_def)
  moreover have "int (length (unread s')) = int (length (unread s)) - int c"
    using u c t s' by simp
  ultimately show ?thesis using s' by simp
qed

lemma read_counts:
  assumes i: "tf_inv (tr_transfile_obj r)" and s: "tr_step r (Read n) = Inr (a, b, r')"
  shows "counts r a b r'"
proof -
  let ?m = "effective_size n"
  let ?u = "tf_unread (tr_transfile_obj r)"
  have ac: "accepts (tr_transfile_obj r) (int ?m)"
    using TransRead_read_rejects [of r n] s by (cases "accepts (tr_transfile_obj r) (int ?m)") auto
  from TransRead_read_result [OF i ac]
  obtain t' where rd: "TransRead_read r n =
        Inr (take ?m ?u, r\<lparr>tr_transfile_obj := t', tr_pos := tr_pos r + int (length (take ?m ?u))\<rparr>)"
    and u': "tf_unread t' = drop ?m ?u" and k: "tf_keeps (tr_transfile_obj r) t'"
    by blast
  have a: "a = length (take ?m ?u)" and b: "b = 0"
    using s rd by simp_all
  have r': "r' = r\<lparr>tr_transfile_obj := t', tr_pos := tr_pos r + int a\<rparr>"
    using s rd unfolding a by simp
  have u'': "tf_unread t' = drop a ?u" using u' a by (simp add: min_def)
  have al: "a \<le> length ?u" using a by simp
  have c: "\<exists>s'. t' = CompressedObj s' \<and> cf_pos s' = cf_pos s + int a"
    if "tr_transfile_obj r = CompressedObj s" for s
    using tf_keeps_counter [OF k u'' al that] .
  show ?thesis unfolding counts_def r' b using k c by simp
qed

lemma native_seek_success:
  "native_seek f offset whence = Inr f' \<Longrightarrow>
     0 \<le> nf_pos f' \<and> nf_content f' = nf_content f \<and> nf_c_long f' = nf_c_long f"
  by (auto simp: native_seek_def Let_def split: if_splits)

lemma seek_counts:
  assumes i: "tf_inv (tr_transfile_obj r)"
    and s: "tr_step r (Seek offset whence) = Inr (a, b, r')"
  shows "counts r a b r'"
proof -
  let ?t = "tr_transfile_obj r"
  let ?u = "tf_unread ?t"
  from s obtain r1 where sk: "TransRead_seek r offset whence = Inr r1"
    by (auto split: sum.splits)
  have a: "a = 0" and r': "r' = r1"
    and b: "b = (if seek_emulated r
                 then length ?u - length (tf_unread (tr_transfile_obj r1)) else 0)"
    using s sk by simp_all
  show ?thesis
  proof (cases "tr_force_fake_seek r \<or> \<not> has_seek ?t")
    case True
    then obtain p t' where
      f: "fake_seek_forward transfile_read ?t (tr_pos r) offset whence = Inr (p, t')"
      and r1: "r1 = r\<lparr>tr_pos := p, tr_transfile_obj := t'\<rparr>"
      using sk by (auto simp: TransRead_seek_def split: sum.splits)
    from fake_seek_forward_success [OF transfile_read_delivers_keeps tf_keeps_refl [OF i] f]
    obtain c where c: "c \<le> length ?u" "p = tr_pos r + int c"
      "tf_unread t' = drop c ?u" "tf_keeps ?t t'" by auto
    have e: "seek_emulated r" "\<not> delegates_to_decompressor r"
      using True by (cases ?t; auto simp: seek_emulated_def delegates_to_decompressor_def)+
    have bc: "b = c" using b e r1 c by simp
    have cn: "\<exists>s'. t' = CompressedObj s' \<and> cf_pos s' = cf_pos s + int c"
      if "?t = CompressedObj s" for s
      using tf_keeps_counter [OF c(4) c(3) c(1) that] .
    show ?thesis unfolding counts_def r' r1 a bc using c e cn by simp
  next
    case False
    show ?thesis
    proof (cases ?t)
      case (CompressedObj s0)
      then obtain s1 where cs: "CompressedFile_seek s0 offset whence = Inr s1"
        and r1: "r1 = r\<lparr>tr_transfile_obj := CompressedObj s1\<rparr>"
        using sk False by (auto simp: TransRead_seek_def split: sum.splits)
      have ci: "cf_inv s0" using i CompressedObj by simp
      from CompressedFile_seek_success [OF ci cs]
      obtain c where c: "c \<le> length (unread s0)" "cf_pos s1 = cf_pos s0 + int c"
        "unread s1 = drop c (unread s0)" "cf_inv s1" by auto
      have e: "seek_emulated r" "delegates_to_decompressor r"
        using False CompressedObj
        by (simp_all add: seek_emulated_def delegates_to_decompressor_def)
      have bc: "b = c" using b e r1 c CompressedObj by simp
      have k: "tf_keeps ?t (CompressedObj s1)"
        using c CompressedObj by (simp add: tf_keeps_def)
      show ?thesis unfolding counts_def r' r1 a bc using c e k CompressedObj by simp
    next
      case (StreamObj c f)
      then show ?thesis using False by simp
    next
      case (NativeObj f)
      then obtain f' where ns: "native_seek f offset whence = Inr f'"
        and r1: "r1 = r\<lparr>tr_transfile_obj := NativeObj f'\<rparr>"
        using sk False by (auto simp: TransRead_seek_def split: sum.splits)
      have e: "\<not> seek_emulated r" "\<not> delegates_to_decompressor r"
        using False NativeObj
        by (simp_all add: seek_emulated_def delegates_to_decompressor_def)
      have b0: "b = 0" using b e by simp
      have k: "tf_keeps ?t (NativeObj f')"
        using native_seek_success [OF ns] NativeObj i by (simp add: tf_keeps_def)
      show ?thesis unfolding counts_def r' r1 a b0 using e k NativeObj by simp
    qed
  qed
qed

lemma tr_step_counts:
  "tf_inv (tr_transfile_obj r) \<Longrightarrow> tr_step r x = Inr (a, b, r') \<Longrightarrow> counts r a b r'"
  by (cases x) (auto intro: read_counts seek_counts)

lemma tr_run_counts:
  "tf_inv (tr_transfile_obj r) \<Longrightarrow> tr_run r ops = (a, b, r') \<Longrightarrow> counts r a b r'"
proof (induction ops arbitrary: r a b r')
  case Nil
  then show ?case by (simp add: counts_refl)
next
  case (Cons x xs)
  show ?case
  proof (cases "tr_step r x")
    case (Inl e)
    then have "tr_run r xs = (a, b, r')" using Cons.prems(2) by simp
    then show ?thesis using Cons.IH Cons.prems(1) by blast
  next
    case (Inr y)
    obtain a1 b1 r1 where y: "y = (a1, b1, r1)" by (cases y)
    obtain a2 b2 r2 where t: "tr_run r1 xs = (a2, b2, r2)" by (cases "tr_run r1 xs")
    have c1: "counts r a1 b1 r1"
      using tr_step_counts [OF Cons.prems(1)] Inr y by simp
    then have "tf_inv (tr_transfile_obj r1)" by (simp add: counts_def tf_keeps_def)
    then have c2: "counts r1 a2 b2 r2" using Cons.IH t by blast
    have "a = a1 + a2" "b = b1 + b2" "r' = r2"
      using Cons.prems(2) Inr y t by simp_all
    then show ?thesis using counts_trans [OF c1 c2] by simp
  qed
qed

text \<open>
  The errors of a step: a reader that satisfies its invariant fails only on a seek, with
  the error for a wrong \<open>whence\<close>, the backward-seek error, or the \<open>IOError\<close> of the file
  object's own seek, or on a \<open>read\<close> whose size the file object cannot convert to a C
  long; each is raised before the active stream is touched.
\<close>

lemma fake_seek_forward_errors:
  assumes d: "delivers rd I u" and i: "I s"
    and r: "fake_seek_forward rd s cur_pos offset whence = Inl e"
  shows "e = InvalidWhence whence \<or> e = BackwardSeek cur_pos (seek_target cur_pos offset whence)"
proof (cases "whence = SEEK_SET \<or> whence = SEEK_CUR")
  case False
  then show ?thesis using r by (simp add: fake_seek_forward_def)
next
  case w: True
  show ?thesis
  proof (cases "seek_target cur_pos offset whence < cur_pos")
    case True
    then show ?thesis using r fake_seek_forward_backward [OF w True, of rd s] by simp
  next
    case False
    then have "cur_pos \<le> seek_target cur_pos offset whence" by simp
    from fake_seek_forward_delivers [OF d i w this] r show ?thesis by auto
  qed
qed

lemma tr_step_errors:
  assumes i: "tf_inv (tr_transfile_obj r)" and s: "tr_step r x = Inl e"
  shows "(\<exists>w. e = InvalidWhence w) \<or> (\<exists>a b. e = BackwardSeek a b) \<or>
         e = Raised (IOError ''[Errno 22] Invalid argument'') \<or>
         e = Raised (OtherException ''OverflowError'')"
proof (cases x)
  case (Read n)
  show ?thesis
  proof (cases "accepts (tr_transfile_obj r) (int (effective_size n))")
    case True
    from TransRead_read_result [OF i True] s Read show ?thesis by auto
  next
    case False
    from TransRead_read_rejects [OF False] s Read show ?thesis by auto
  qed
next
  case (Seek offset whence)
  then have sk: "TransRead_seek r offset whence = Inl e"
    using s by (auto split: sum.splits)
  show ?thesis
  proof (cases "tr_force_fake_seek r \<or> \<not> has_seek (tr_transfile_obj r)")
    case True
    then have "fake_seek_forward transfile_read (tr_transfile_obj r) (tr_pos r) offset whence
        = Inl e"
      using sk by (auto simp: TransRead_seek_def split: sum.splits)
    from fake_seek_forward_errors [OF transfile_read_delivers i this]
    show ?thesis by blast
  next
    case False
    show ?thesis
    proof (cases "tr_transfile_obj r")
      case (CompressedObj s0)
      then have "fake_seek_forward CompressedFile_read s0 (cf_pos s0) offset whence = Inl e"
        using sk False
        by (auto simp: TransRead_seek_def CompressedFile_seek_def split: sum.splits)
      moreover have "cf_inv s0" using i CompressedObj by simp
      ultimately show ?thesis
        using fake_seek_forward_errors [OF CompressedFile_read_delivers] by blast
    next
      case (StreamObj c f)
      then show ?thesis using False by simp
    next
      case (NativeObj f)
      then have "native_seek f offset whence = Inl e"
        using sk False by (auto simp: TransRead_seek_def split: sum.splits)
      then show ?thesis by (auto simp: native_seek_def Let_def split: if_splits)
    qed
  qed
qed

text \<open>The reader after a sequence of operations.\<close>

definition tr_after :: "'d trans_read \<Rightarrow> operation list \<Rightarrow> 'd trans_read" where
  "tr_after r ops = snd (snd (tr_run r ops))"

lemma tr_run_append:
  "tr_run r (xs @ ys) =
     (case tr_run r xs of
        (a, b, r1) \<Rightarrow> (case tr_run r1 ys of (a', b', r2) \<Rightarrow> (a + a', b + b', r2)))"
  by (induction xs arbitrary: r) (auto split: sum.splits prod.splits)

lemma tr_after_append: "tr_after r (xs @ ys) = tr_after (tr_after r xs) ys"
  by (simp add: tr_after_def tr_run_append split: prod.splits)

lemma tr_after_counts:
  assumes "tf_inv (tr_transfile_obj r)"
  shows "\<exists>a b. counts r a b (tr_after r ops)"
proof -
  obtain a b r' where t: "tr_run r ops = (a, b, r')" by (cases "tr_run r ops")
  then have "tr_after r ops = r'" by (simp add: tr_after_def)
  then show ?thesis using tr_run_counts [OF assms t] by blast
qed

subsection \<open>The end of the stream\<close>













text \<open>
  A seek that rewinds: the seek is the file object's own, it succeeds, and it leaves the
  position before the end of the content. A sequence of operations never rewinds when none
  of its operations does, each on the reader that the operations before it leave.
\<close>

fun rewinds :: "'d trans_read \<Rightarrow> operation \<Rightarrow> bool" where
  "rewinds r (Read n) = False"
| "rewinds r (Seek offset whence) =
     (\<not> (tr_force_fake_seek r \<or> \<not> has_seek (tr_transfile_obj r)) \<and>
      (case tr_transfile_obj r of
         CompressedObj s \<Rightarrow> False
       | StreamObj c f \<Rightarrow> False
       | NativeObj f \<Rightarrow>
           (case native_seek f offset whence of
              Inl e \<Rightarrow> False
            | Inr f' \<Rightarrow> nf_pos f' < int (length (nf_content f')))))"









text \<open>After a seek that rewinds, \<open>read(1)\<close> returns a byte.\<close>

lemma rewinding_seek_returns_data:
  assumes "tf_inv (tr_transfile_obj r)" and "rewinds r (Seek offset whence)"
  shows "\<exists>r1 buf r2. TransRead_seek r offset whence = Inr r1 \<and>
           TransRead_read r1 1 = Inr (buf, r2) \<and> length buf = 1"
proof -
  from assms(2) obtain f f' where f: "tr_transfile_obj r = NativeObj f"
    and nf: "\<not> tr_force_fake_seek r"
    and s: "native_seek f offset whence = Inr f'"
    and p: "nf_pos f' < int (length (nf_content f'))"
    by (cases "tr_transfile_obj r") (auto split: sum.splits)
  let ?r1 = "r\<lparr>tr_transfile_obj := NativeObj f'\<rparr>"
  have a: "TransRead_seek r offset whence = Inr ?r1"
    using f nf s by (simp add: TransRead_seek_def)
  have p0: "0 \<le> nf_pos f'" using native_seek_success [OF s] by simp
  have l: "length (take (Suc 0) (drop (nat (nf_pos f')) (nf_content f'))) = 1"
    using p p0 by (simp add: min_def) linarith
  have "\<exists>buf r2. TransRead_read ?r1 1 = Inr (buf, r2) \<and> length buf = 1"
    using l by (simp add: TransRead_read_def native_read_def file_object_read_def
        file_read_def fits_c_long_def LONG_MAX_def)
  then show ?thesis using a by blast
qed

section \<open>Examples\<close>

text \<open>
  An example decompression function, for the concrete instances below: it doubles every other
  chunk and returns nothing for the chunks in between; its state counts the chunks.
\<close>

definition toy_decompress :: "nat decompress" where
  "toy_decompress d buf = (if even d then buf @ buf else [], Suc d)"

subsection \<open>Example readers\<close>

text \<open>Libraries whose decompressors are the example function, over a one-member archive.\<close>

definition toy_libs :: "nat libs" where
  "toy_libs =
     \<lparr> tar_first_member = (\<lambda>raw. Inr (\<lparr>nf_content = raw, nf_pos = 0, nf_c_long = False\<rparr>,
                                       int (length raw))),
       zlib_decompressobj = Inr (toy_decompress, 0),
       bz2_decompressor = Inr (toy_decompress, 0),
       fstat_st_size = 10,
       http_c_long = False \<rparr>"

definition example_plain :: "nat trans_read" where
  "example_plain =
     \<lparr> tr_name = ''image.raw'', tr_size = Some 10, tr_is_compressed = False,
       tr_is_url = False, tr_force_fake_seek = False, tr_pos = 0,
       tr_transfile_obj = NativeObj \<lparr>nf_content = ''0123456789'', nf_pos = 0, nf_c_long = True\<rparr> \<rparr>"

definition example_url :: "nat trans_read" where
  "example_url =
     \<lparr> tr_name = ''http://host/image.raw'', tr_size = None, tr_is_compressed = False,
       tr_is_url = True, tr_force_fake_seek = False, tr_pos = 0,
       tr_transfile_obj = StreamObj False ''0123456789'' \<rparr>"

definition example_gz :: "nat trans_read" where
  "example_gz =
     \<lparr> tr_name = ''image.gz'', tr_size = None, tr_is_compressed = True,
       tr_is_url = False, tr_force_fake_seek = False, tr_pos = 0,
       tr_transfile_obj =
         CompressedObj (CompressedFile_init ''abcde'' (Some toy_decompress) 0 None) \<rparr>"

text \<open>Libraries whose tar reader rejects the archive with \<open>tarfile.ReadError\<close>.\<close>

definition corrupt_tar_libs :: "nat libs" where
  "corrupt_tar_libs =
     toy_libs\<lparr>tar_first_member := (\<lambda>raw. Inl (OtherException ''ReadError: bad checksum''))\<rparr>"

text \<open>The reader \<open>example_gz\<close> after \<open>seek(3, SEEK_SET)\<close>.\<close>

definition example_gz_sought :: "nat trans_read" where
  "example_gz_sought =
     example_gz\<lparr>tr_transfile_obj := CompressedObj
        \<lparr>cf_file_obj = [], cf_decompress_func = Some toy_decompress, cf_decompressor = 1,
         cf_chunk_size = 131072, cf_pos = 3, cf_buffer = ''abcdeabcde'',
         cf_buffer_pos = 3, cf_eof = False\<rparr>\<rparr>"




section \<open>Properties of the buffered decompressor\<close>

text \<open>
  C1. Streaming decompression equals one-shot decompression: for every raw source, every
  decompression function and every chunk size of at least 1, calling \<open>read(n)\<close> (for any
  \<open>n\<close> of at least 1) until it returns nothing returns, in all, the results of the
  decompression function on the successive raw chunks, concatenated in order.
\<close>

theorem streaming_equals_one_shot:
  "1 \<le> cs \<Longrightarrow> 1 \<le> n \<Longrightarrow>
   \<exists>s'. read_until_empty (CompressedFile_init raw (Some f) d (Some cs)) n [] =
           Inr (decompress_each f d (successive_chunks (nat cs) raw), s')"
proof -
  assume cs: "1 \<le> cs" and n: "1 \<le> n"
  let ?s = "CompressedFile_init raw (Some f) d (Some cs)"
  have "cf_chunk_size ?s = cs" using cs by (simp add: CompressedFile_init_def)
  then have "unread ?s = decompress_each f d (successive_chunks (nat cs) raw)"
    using cs by (simp add: unread_init decompress_rest_chunks)
  then show ?thesis
    using read_until_empty_result [OF cf_inv_init n, of raw "Some f" d "Some cs" "[]"]
    by simp
qed

theorem streaming_equals_one_shot_witness:
  "(1::int) \<le> 2 \<and> (1::int) \<le> 3 \<and>
   (\<exists>s'. read_until_empty (CompressedFile_init ''abcde'' (Some toy_decompress) 0 (Some 2)) 3 [] =
           Inr (''ababee'', s'))"
proof -
  have "decompress_each toy_decompress 0 (successive_chunks (nat 2) ''abcde'') = ''ababee''"
    by (simp add: successive_chunks.simps toy_decompress_def)
  then show ?thesis
    using streaming_equals_one_shot [of 2 3 "''abcde''" toy_decompress 0] by simp
qed

text \<open>
  C2. For every state of a decompressor that satisfies its invariant (the states the
  constructor, \<open>read\<close> with sizes that are not negative and \<open>seek\<close> produce) and every
  requested size \<open>n\<close> that is not negative, \<open>read(n)\<close> raises nothing and returns at most
  \<open>n\<close> bytes; when it returns fewer than \<open>n\<close>, the end-of-file flag is set and the raw
  source is exhausted.
\<close>

theorem read_contract:
  "cf_inv s \<Longrightarrow> 0 \<le> n \<Longrightarrow>
   \<exists>data s'. CompressedFile_read s n = Inr (data, s') \<and> int (length data) \<le> n \<and>
      (int (length data) < n \<longrightarrow> cf_eof s' \<and> cf_file_obj s' = [])"
proof -
  assume inv: "cf_inv s" and n: "0 \<le> n"
  from read_result [OF inv n]
  obtain s' where r: "CompressedFile_read s n = Inr (take (nat n) (unread s), s')"
    and i: "cf_inv s'" and e: "cf_eof s' \<longleftrightarrow> cf_eof s \<or> int (length (unread s)) < n"
    by auto
  have "cf_eof s' \<and> cf_file_obj s' = []" if "int (length (take (nat n) (unread s))) < n"
  proof -
    from that have "int (length (unread s)) < n" by (simp add: min_def split: if_splits)
    then show ?thesis using e i by (simp add: cf_inv_def)
  qed
  moreover have "int (length (take (nat n) (unread s))) \<le> n" using n by simp
  ultimately show ?thesis using r by blast
qed

theorem read_contract_witness:
  "cf_inv (CompressedFile_init ''abcde'' (Some toy_decompress) 0 (Some 2)) \<and> (0::int) \<le> 7 \<and>
   (\<exists>data s'. CompressedFile_read
        (CompressedFile_init ''abcde'' (Some toy_decompress) 0 (Some 2)) 7 = Inr (data, s') \<and>
      data = ''ababee'' \<and> int (length data) \<le> 7 \<and>
      (int (length data) < 7 \<longrightarrow> cf_eof s' \<and> cf_file_obj s' = []))"
proof -
  let ?s = "CompressedFile_init ''abcde'' (Some toy_decompress) 0 (Some 2)"
  have i: "cf_inv ?s"
    by (simp add: cf_inv_def asserts_ok_def CompressedFile_init_def)
  have v: "\<exists>s'. CompressedFile_read ?s 7 = Inr (''ababee'', s')"
    by (simp add: CompressedFile_read_def CompressedFile_init_def read_from_buffer_def
        py_slice_def py_slice_from_def py_index_def read_loop.simps file_read_def
        decompress_chunk_def toy_decompress_def)
  have n: "(0::int) \<le> 7" by simp
  show ?thesis using i v read_contract [OF i n] by auto
qed

section \<open>Properties of the forward-seek emulation\<close>

text \<open>
  C10. The emulation never overshoots: for a seek with \<open>whence\<close> one of the two values and
  a target at or after the current position, on an object whose \<open>read(n)\<close> returns at most
  \<open>n\<close> bytes, the position returned lies between the current position and the target, an
  error can only be one the object's \<open>read\<close> raised, and the loop never leaves a residual
  count below zero, so the "seeked too far" branch is not taken.
\<close>

theorem never_overshoots:
  assumes b: "bounded_reads rd"
    and w: "whence = SEEK_SET \<or> whence = SEEK_CUR"
    and f: "cur_pos \<le> seek_target cur_pos offset whence"
  shows "(case fake_seek_forward rd s cur_pos offset whence of
           Inl e \<Rightarrow> \<exists>s0 n. rd s0 n = Inl e
         | Inr (p, s') \<Rightarrow> cur_pos \<le> p \<and> p \<le> seek_target cur_pos offset whence) \<and>
         (\<forall>to_read s'. seek_loop rd s (seek_target cur_pos offset whence - cur_pos)
              = Inr (to_read, s') \<longrightarrow> \<not> to_read < 0)"
proof -
  let ?new = "seek_target cur_pos offset whence"
  have t: "0 \<le> ?new - cur_pos" using f by simp
  note l = seek_loop_bounded [OF b t, of s]
  have ws: "\<not> (whence \<noteq> SEEK_SET \<and> whence \<noteq> SEEK_CUR)" using w by simp
  have nb: "\<not> ?new < cur_pos" using f by simp
  have eq: "fake_seek_forward rd s cur_pos offset whence =
      (case seek_loop rd s (?new - cur_pos) of
         Inl e \<Rightarrow> Inl e
       | Inr (to_read, file_obj') \<Rightarrow>
           if to_read < 0 then Inl (SeekedTooFar (?new - to_read) ?new)
           else Inr (?new - to_read, file_obj'))"
    unfolding fake_seek_forward_def Let_def seek_target_def [symmetric]
    by (simp only: ws nb if_False)
  show ?thesis using l unfolding eq by (auto split: sum.splits)
qed

theorem never_overshoots_witness:
  "bounded_reads (transfile_read :: nat transfile reader) \<and>
   (SEEK_SET = SEEK_SET \<or> SEEK_SET = SEEK_CUR) \<and>
   0 \<le> seek_target 0 4 SEEK_SET \<and>
   fake_seek_forward transfile_read (StreamObj False ''0123456789'' :: nat transfile) 0 4 SEEK_SET
     = Inr (4, StreamObj False ''456789'') \<and>
   (0::int) \<le> 4 \<and> (4::int) \<le> seek_target 0 4 SEEK_SET"
proof -
  have w: "SEEK_SET = SEEK_SET \<or> SEEK_SET = SEEK_CUR" by simp
  have f: "0 \<le> seek_target 0 4 SEEK_SET" by simp
  have v: "fake_seek_forward transfile_read (StreamObj False ''0123456789'' :: nat transfile) 0 4 SEEK_SET
     = Inr (4, StreamObj False ''456789'')"
    by (simp add: fake_seek_forward_def seek_loop.simps file_read_def file_object_read_def
      fits_c_long_def LONG_MAX_def SEEK_SET_def SEEK_CUR_def)
  show ?thesis
    using never_overshoots [OF transfile_read_bounded w f,
        of "StreamObj False ''0123456789'' :: nat transfile"] transfile_read_bounded v
    by simp
qed

text \<open>
  C7. Short seeks: for a seek with \<open>whence\<close> one of the two values and a target at or after
  the current position, on an object that delivers a stream, the emulation raises nothing
  and returns the current position plus the number of bytes it discarded (the bytes by which
  the undelivered stream got shorter). When the stream has fewer bytes left than the seek
  asks for, the stream ends up exhausted and the position returned is below the target;
  otherwise the position returned is the target.
\<close>

theorem short_seek:
  assumes d: "delivers rd I u" and i: "I s"
    and w: "whence = SEEK_SET \<or> whence = SEEK_CUR"
    and f: "cur_pos \<le> seek_target cur_pos offset whence"
  shows "\<exists>p s'. fake_seek_forward rd s cur_pos offset whence = Inr (p, s') \<and>
      p = cur_pos + (int (length (u s)) - int (length (u s'))) \<and>
      u s' = drop (nat (p - cur_pos)) (u s) \<and>
      (if int (length (u s)) < seek_target cur_pos offset whence - cur_pos
       then u s' = [] \<and> p < seek_target cur_pos offset whence
       else p = seek_target cur_pos offset whence)"
proof -
  let ?new = "seek_target cur_pos offset whence"
  from fake_seek_forward_delivers [OF d i w f]
  obtain s' where r: "fake_seek_forward rd s cur_pos offset whence =
        Inr (cur_pos + min (?new - cur_pos) (int (length (u s))), s')"
    and u': "u s' = drop (nat (?new - cur_pos)) (u s)" by auto
  show ?thesis
  proof (cases "int (length (u s)) < ?new - cur_pos")
    case True
    then have "min (?new - cur_pos) (int (length (u s))) = int (length (u s))" "u s' = []"
      using u' by simp_all
    then show ?thesis using r True by simp
  next
    case False
    then have m: "min (?new - cur_pos) (int (length (u s))) = ?new - cur_pos" by simp
    have "int (length (u s')) = int (length (u s)) - (?new - cur_pos)"
      using u' False f by simp
    then show ?thesis using r False m u' by simp
  qed
qed

theorem short_seek_witness:
  "delivers (transfile_read :: nat transfile reader) tf_inv tf_unread \<and>
   tf_inv (StreamObj False ''0123456789'' :: nat transfile) \<and>
   (SEEK_CUR = SEEK_SET \<or> SEEK_CUR = SEEK_CUR) \<and>
   3 \<le> seek_target 3 15 SEEK_CUR \<and>
   fake_seek_forward transfile_read (StreamObj False ''0123456789'' :: nat transfile) 3 15 SEEK_CUR
     = Inr (13, StreamObj False [])"
proof -
  let ?s = "StreamObj False ''0123456789'' :: nat transfile"
  have w: "SEEK_CUR = SEEK_SET \<or> SEEK_CUR = SEEK_CUR" by simp
  have f: "3 \<le> seek_target 3 15 SEEK_CUR" by simp
  have i: "tf_inv ?s" by simp
  have v: "fake_seek_forward transfile_read ?s 3 15 SEEK_CUR = Inr (13, StreamObj False [])"
    by (simp add: fake_seek_forward_def seek_loop.simps file_read_def file_object_read_def
      fits_c_long_def LONG_MAX_def SEEK_SET_def SEEK_CUR_def)
  from short_seek [of transfile_read tf_inv tf_unread ?s SEEK_CUR 3 15,
      OF transfile_read_delivers i w f]
  obtain p s' where "fake_seek_forward transfile_read ?s 3 15 SEEK_CUR = Inr (p, s')"
    and "p = 3 + (int (length (tf_unread ?s)) - int (length (tf_unread s')))"
    by (elim exE conjE)
  then have "p = 13" "s' = StreamObj False []" unfolding v by simp_all
  then show ?thesis by (intro conjI transfile_read_delivers i w f v)
qed

section \<open>Properties of the facade\<close>

text \<open>
  C4 (amended). Backward seeks are rejected wherever the seek is emulated: for a reader with
  forced emulation, or whose active stream is a \<open>_CompressedFile\<close> or an object that has
  \<open>read\<close> only, a seek with \<open>whence\<close> one of the two values and a target strictly
  before the position \<open>tell\<close> reports fails with the backward-seek error, which names
  both positions; the reader is not moved.
\<close>

theorem backward_seek_rejected:
  assumes e: "tr_force_fake_seek r \<or> (\<forall>f. tr_transfile_obj r \<noteq> NativeObj f)"
    and w: "whence = SEEK_SET \<or> whence = SEEK_CUR"
    and p: "TransRead_tell r = Inr cur_pos"
    and b: "seek_target cur_pos offset whence < cur_pos"
  shows "TransRead_seek r offset whence =
           Inl (BackwardSeek cur_pos (seek_target cur_pos offset whence))"
proof (cases "tr_force_fake_seek r \<or> \<not> has_seek (tr_transfile_obj r)")
  case True
  then have "cur_pos = tr_pos r" using p by (simp add: TransRead_tell_def)
  then show ?thesis using True b
    by (simp add: TransRead_seek_def fake_seek_forward_backward [OF w])
next
  case False
  then obtain s where s: "tr_transfile_obj r = CompressedObj s"
    using e by (cases "tr_transfile_obj r") auto
  then have "cur_pos = cf_pos s" using p False
    by (simp add: TransRead_tell_def CompressedFile_tell_def)
  then show ?thesis using False s b
    by (simp add: TransRead_seek_def CompressedFile_seek_def fake_seek_forward_backward [OF w])
qed

theorem backward_seek_rejected_witness:
  "(tr_force_fake_seek (example_url\<lparr>tr_pos := 5, tr_transfile_obj := StreamObj False ''56789''\<rparr>) \<or>
    (\<forall>f. tr_transfile_obj (example_url\<lparr>tr_pos := 5, tr_transfile_obj := StreamObj False ''56789''\<rparr>)
           \<noteq> NativeObj f)) \<and>
   (SEEK_SET = SEEK_SET \<or> SEEK_SET = SEEK_CUR) \<and>
   TransRead_tell (example_url\<lparr>tr_pos := 5, tr_transfile_obj := StreamObj False ''56789''\<rparr>) = Inr 5 \<and>
   seek_target 5 2 SEEK_SET < 5 \<and>
   TransRead_seek (example_url\<lparr>tr_pos := 5, tr_transfile_obj := StreamObj False ''56789''\<rparr>) 2 SEEK_SET
     = Inl (BackwardSeek 5 2)"
proof -
  let ?r = "example_url\<lparr>tr_pos := 5, tr_transfile_obj := StreamObj False ''56789''\<rparr>"
  have e: "tr_force_fake_seek ?r \<or> (\<forall>f. tr_transfile_obj ?r \<noteq> NativeObj f)" by simp
  have w: "SEEK_SET = SEEK_SET \<or> SEEK_SET = SEEK_CUR" by simp
  have p: "TransRead_tell ?r = Inr 5" by (simp add: TransRead_tell_def example_url_def)
  have b: "seek_target 5 2 SEEK_SET < 5" by simp
  show ?thesis
    using backward_seek_rejected [of ?r SEEK_SET 5 2, OF e w p b] e p by simp
qed

text \<open>
  The claim as the specification states it fails on a plain local file, where \<open>seek\<close> is
  the file's own: after reading 5 of 10 bytes, \<open>seek(2, SEEK_SET)\<close> succeeds and the
  position goes back from 5 to 2.
\<close>

theorem backward_seek_counterexample:
  "TransRead_read example_plain 5 =
     Inr (''01234'', example_plain\<lparr>tr_pos := 5,
            tr_transfile_obj := NativeObj \<lparr>nf_content = ''0123456789'', nf_pos = 5, nf_c_long = True\<rparr>\<rparr>) \<and>
   TransRead_tell (example_plain\<lparr>tr_pos := 5,
            tr_transfile_obj := NativeObj \<lparr>nf_content = ''0123456789'', nf_pos = 5, nf_c_long = True\<rparr>\<rparr>) = Inr 5 \<and>
   TransRead_seek (example_plain\<lparr>tr_pos := 5,
            tr_transfile_obj := NativeObj \<lparr>nf_content = ''0123456789'', nf_pos = 5, nf_c_long = True\<rparr>\<rparr>) 2 SEEK_SET =
     Inr (example_plain\<lparr>tr_pos := 5,
            tr_transfile_obj := NativeObj \<lparr>nf_content = ''0123456789'', nf_pos = 2, nf_c_long = True\<rparr>\<rparr>) \<and>
   TransRead_tell (example_plain\<lparr>tr_pos := 5,
            tr_transfile_obj := NativeObj \<lparr>nf_content = ''0123456789'', nf_pos = 2, nf_c_long = True\<rparr>\<rparr>) = Inr 2"
  by (simp add: example_plain_def TransRead_read_def TransRead_seek_def TransRead_tell_def
      native_read_def native_seek_def native_tell_def file_read_def file_object_read_def
      fits_c_long_def LONG_MAX_def SEEK_SET_def SEEK_CUR_def
      SEEK_END_def)






text \<open>
  C6. The format is decided by the suffix of the name alone, by the first entry of the
  format table that the name ends with (compared byte by byte, so case matters):
  \<^item> a tar suffix: the active stream is the first member's stream and the size is the
    member's size;
  \<^item> \<open>.gz\<close>: a decompressor over the raw file with the zlib function and the default chunk
    size of 128 KiB;
  \<^item> \<open>.bz2\<close>: a decompressor with the bzip2 function and a chunk size of 128 bytes;
  \<^item> any other name: the raw file itself, not compressed, with the size from \<open>fstat\<close>
    only when the source is not a URL.
  In each case the only other outcome is the exception that the library call raised.
\<close>

theorem format_classification:
  "open_compressed_file libs name is_url force file_obj =
     (case classify format_table name of
        TarFirstMember \<Rightarrow>
          (case tar_first_member libs file_obj of
             Inl err \<Rightarrow> Inl (except_IOError name err)
           | Inr (member_stream, member_size) \<Rightarrow>
               Inr \<lparr> tr_name = name, tr_size = Some member_size, tr_is_compressed = True,
                     tr_is_url = is_url, tr_force_fake_seek = force, tr_pos = 0,
                     tr_transfile_obj = NativeObj member_stream \<rparr>)
      | Gzip \<Rightarrow>
          (case zlib_decompressobj libs of
             Inl err \<Rightarrow> Inl (except_IOError name err)
           | Inr (decompress, d) \<Rightarrow>
               Inr \<lparr> tr_name = name, tr_size = None, tr_is_compressed = True,
                     tr_is_url = is_url, tr_force_fake_seek = force, tr_pos = 0,
                     tr_transfile_obj = CompressedObj
                       \<lparr> cf_file_obj = file_obj, cf_decompress_func = Some decompress,
                         cf_decompressor = d, cf_chunk_size = 128 * 1024, cf_pos = 0,
                         cf_buffer = [], cf_buffer_pos = 0, cf_eof = False \<rparr> \<rparr>)
      | Bzip2 \<Rightarrow>
          (case bz2_decompressor libs of
             Inl err \<Rightarrow> Inl (except_IOError name err)
           | Inr (decompress, d) \<Rightarrow>
               Inr \<lparr> tr_name = name, tr_size = None, tr_is_compressed = True,
                     tr_is_url = is_url, tr_force_fake_seek = force, tr_pos = 0,
                     tr_transfile_obj = CompressedObj
                       \<lparr> cf_file_obj = file_obj, cf_decompress_func = Some decompress,
                         cf_decompressor = d, cf_chunk_size = 128, cf_pos = 0,
                         cf_buffer = [], cf_buffer_pos = 0, cf_eof = False \<rparr> \<rparr>)
      | Plain \<Rightarrow>
          Inr \<lparr> tr_name = name,
                tr_size = (if is_url then None else Some (fstat_st_size libs)),
                tr_is_compressed = False,
                tr_is_url = is_url, tr_force_fake_seek = force, tr_pos = 0,
                tr_transfile_obj =
                  (if is_url then StreamObj (force \<or> http_c_long libs) file_obj
                   else NativeObj \<lparr>nf_content = file_obj, nf_pos = 0, nf_c_long = True\<rparr>) \<rparr>)"
  by (rule open_compressed_file_by_format)

theorem format_classification_witness:
  "classify format_table ''image.raw.tar.gz'' = TarFirstMember \<and>
   classify format_table ''image.tgz'' = TarFirstMember \<and>
   classify format_table ''image.gz'' = Gzip \<and>
   classify format_table ''image.GZ'' = Plain \<and>
   classify format_table ''image.tar.bz2.gz'' = Gzip \<and>
   classify format_table ''image.bz2'' = Bzip2 \<and>
   open_compressed_file toy_libs ''image.gz'' False False ''abcde'' = Inr example_gz \<and>
   open_compressed_file toy_libs ''image.raw'' False False ''0123456789'' = Inr example_plain \<and>
   open_compressed_file toy_libs ''http://host/image.raw'' True False ''0123456789''
     = Inr example_url"
proof -
  have c: "classify format_table ''image.raw.tar.gz'' = TarFirstMember"
    "classify format_table ''image.tgz'' = TarFirstMember"
    "classify format_table ''image.gz'' = Gzip"
    "classify format_table ''image.GZ'' = Plain"
    "classify format_table ''image.tar.bz2.gz'' = Gzip"
    "classify format_table ''image.bz2'' = Bzip2"
    "classify format_table ''image.raw'' = Plain"
    "classify format_table ''http://host/image.raw'' = Plain"
    by (simp_all add: format_table_def endswith_def)
  have "open_compressed_file toy_libs ''image.gz'' False False ''abcde'' = Inr example_gz"
    unfolding format_classification c
    by (simp add: toy_libs_def example_gz_def CompressedFile_init_def)
  moreover have "open_compressed_file toy_libs ''image.raw'' False False ''0123456789''
      = Inr example_plain"
    unfolding format_classification c by (simp add: toy_libs_def example_plain_def)
  moreover have "open_compressed_file toy_libs ''http://host/image.raw'' True False
      ''0123456789'' = Inr example_url"
    unfolding format_classification c by (simp add: toy_libs_def example_url_def)
  ultimately show ?thesis using c by (intro conjI)
qed

text \<open>
  C9 (amended). When the name selects the tar, gzip or bzip2 pipeline and the library call
  that sets the pipeline up raises an \<open>IOError\<close>, opening fails with the module's
  \<open>Error\<close>, which carries the name and the cause.
\<close>

theorem open_wraps_IOError:
  assumes "case classify format_table name of
             TarFirstMember \<Rightarrow> tar_first_member libs file_obj = Inl (IOError msg)
           | Gzip \<Rightarrow> zlib_decompressobj libs = Inl (IOError msg)
           | Bzip2 \<Rightarrow> bz2_decompressor libs = Inl (IOError msg)
           | Plain \<Rightarrow> False"
  shows "open_compressed_file libs name is_url force file_obj =
           Inl (CannotOpenFile name (IOError msg))"
  using assms unfolding open_compressed_file_by_format
  by (cases "classify format_table name") simp_all

theorem open_wraps_IOError_witness:
  "(case classify format_table ''image.bz2'' of
      TarFirstMember \<Rightarrow>
        tar_first_member (toy_libs\<lparr>bz2_decompressor := Inl (IOError ''read failed'')\<rparr>) ''abc''
          = Inl (IOError ''read failed'')
    | Gzip \<Rightarrow> zlib_decompressobj (toy_libs\<lparr>bz2_decompressor := Inl (IOError ''read failed'')\<rparr>)
          = Inl (IOError ''read failed'')
    | Bzip2 \<Rightarrow> bz2_decompressor (toy_libs\<lparr>bz2_decompressor := Inl (IOError ''read failed'')\<rparr>)
          = Inl (IOError ''read failed'')
    | Plain \<Rightarrow> False) \<and>
   open_compressed_file (toy_libs\<lparr>bz2_decompressor := Inl (IOError ''read failed'')\<rparr>)
       ''image.bz2'' False False ''abc''
     = Inl (CannotOpenFile ''image.bz2'' (IOError ''read failed''))"
proof -
  let ?libs = "toy_libs\<lparr>bz2_decompressor := Inl (IOError ''read failed'')\<rparr>"
  have c: "classify format_table ''image.bz2'' = Bzip2"
    by (simp add: format_table_def endswith_def)
  have h: "case classify format_table ''image.bz2'' of
             TarFirstMember \<Rightarrow> tar_first_member ?libs ''abc'' = Inl (IOError ''read failed'')
           | Gzip \<Rightarrow> zlib_decompressobj ?libs = Inl (IOError ''read failed'')
           | Bzip2 \<Rightarrow> bz2_decompressor ?libs = Inl (IOError ''read failed'')
           | Plain \<Rightarrow> False"
    unfolding c by simp
  show ?thesis
    using open_wraps_IOError [where name = "''image.bz2''" and libs = ?libs
        and file_obj = "''abc''" and msg = "''read failed''" and is_url = False
        and force = False, OF h] h
    by (intro conjI)
qed

text \<open>
  The claim as the specification states it fails when the library raises an exception of
  another class, as \<open>tarfile\<close> does on a malformed header: the exception leaves
  \<open>_open_compressed_file\<close> as it is.
\<close>

theorem open_wraps_counterexample:
  "open_compressed_file corrupt_tar_libs ''image.tar.gz'' False False ''garbage''
     = Inl (Raised (OtherException ''ReadError: bad checksum''))"
  by (simp add: open_compressed_file_def corrupt_tar_libs_def toy_libs_def endswith_def)

text \<open>
  C8 (amended). Position counters: for every reader and every sequence of \<open>read\<close> and
  \<open>seek\<close> operations (from the constructor's state, where the counters are 0, or from any
  later state),
  \<^item> the counter of a \<open>_CompressedFile\<close> grows by the bytes \<open>read\<close> returned plus the bytes
    emulated seeks discarded;
  \<^item> the counter of \<open>TransRead\<close> grows by the same amount, unless \<open>TransRead\<close> hands its
    seeks to a \<open>_CompressedFile\<close> underneath (emulation not forced): then it grows by the
    bytes \<open>read\<close> returned only, and \<open>tell\<close> reports the counter of the
    \<open>_CompressedFile\<close>;
  \<^item> both counters never decrease from one point of the sequence to a later one.
\<close>

theorem position_counter:
  fixes r :: "'d trans_read"
  assumes i: "tf_inv (tr_transfile_obj r)"
    and run: "tr_run r ops = (returned, discarded, r')"
  shows "(\<not> delegates_to_decompressor r \<longrightarrow>
            tr_pos r' = tr_pos r + int returned + int discarded) \<and>
         (delegates_to_decompressor r \<longrightarrow> tr_pos r' = tr_pos r + int returned) \<and>
         (\<forall>s. tr_transfile_obj r = CompressedObj s \<longrightarrow>
            (\<exists>s'. tr_transfile_obj r' = CompressedObj s' \<and>
                  cf_pos s' = cf_pos s + int returned + int discarded)) \<and>
         (\<forall>xs ys. ops = xs @ ys \<longrightarrow>
            tr_pos (tr_after r xs) \<le> tr_pos r' \<and>
            (\<forall>s1 s'. tr_transfile_obj (tr_after r xs) = CompressedObj s1 \<and>
                     tr_transfile_obj r' = CompressedObj s' \<longrightarrow> cf_pos s1 \<le> cf_pos s')) \<and>
         (delegates_to_decompressor r \<longrightarrow>
            (\<exists>s'. tr_transfile_obj r' = CompressedObj s' \<and> TransRead_tell r' = Inr (cf_pos s')))"
proof -
  note c = tr_run_counts [OF i run]
  have r': "r' = tr_after r ops" using run by (simp add: tr_after_def)
  have m: "tr_pos (tr_after r xs) \<le> tr_pos r' \<and>
        (\<forall>s1 s'. tr_transfile_obj (tr_after r xs) = CompressedObj s1 \<and>
                 tr_transfile_obj r' = CompressedObj s' \<longrightarrow> cf_pos s1 \<le> cf_pos s')"
    if "ops = xs @ ys" for xs ys
  proof -
    let ?r1 = "tr_after r xs"
    from tr_after_counts [OF i, of xs] obtain a1 b1 where "counts r a1 b1 ?r1" by blast
    then have i1: "tf_inv (tr_transfile_obj ?r1)" by (simp add: counts_def tf_keeps_def)
    have "r' = tr_after ?r1 ys" using r' that by (simp add: tr_after_append)
    with tr_after_counts [OF i1, of ys] obtain a2 b2 where c2: "counts ?r1 a2 b2 r'" by auto
    have "tr_pos ?r1 \<le> tr_pos r'" using c2 by (simp add: counts_def)
    moreover have "cf_pos s1 \<le> cf_pos s'"
      if "tr_transfile_obj ?r1 = CompressedObj s1 \<and> tr_transfile_obj r' = CompressedObj s'"
      for s1 s'
      using c2 that by (auto simp: counts_def)
    ultimately show ?thesis by blast
  qed
  have t: "\<exists>s'. tr_transfile_obj r' = CompressedObj s' \<and> TransRead_tell r' = Inr (cf_pos s')"
    if d: "delegates_to_decompressor r"
  proof -
    from d obtain s where "tr_transfile_obj r = CompressedObj s"
      by (cases "tr_transfile_obj r") (auto simp: delegates_to_decompressor_def)
    with c obtain s' where s': "tr_transfile_obj r' = CompressedObj s'"
      by (auto simp: counts_def)
    have "\<not> tr_force_fake_seek r'" using c d
      by (simp add: counts_def delegates_to_decompressor_def)
    then have "TransRead_tell r' = Inr (cf_pos s')"
      using s' by (simp add: TransRead_tell_def CompressedFile_tell_def)
    then show ?thesis using s' by simp
  qed
  show ?thesis
  proof (intro conjI allI impI)
    show "\<exists>s'. tr_transfile_obj r' = CompressedObj s' \<and> TransRead_tell r' = Inr (cf_pos s')"
      if "delegates_to_decompressor r" using that by (rule t)
    show "tr_pos r' = tr_pos r + int returned + int discarded"
      if "\<not> delegates_to_decompressor r" using c that by (simp add: counts_def)
    show "tr_pos r' = tr_pos r + int returned"
      if "delegates_to_decompressor r" using c that by (simp add: counts_def)
    show "\<exists>s'. tr_transfile_obj r' = CompressedObj s' \<and>
               cf_pos s' = cf_pos s + int returned + int discarded"
      if "tr_transfile_obj r = CompressedObj s" for s using c that by (simp add: counts_def)
    show "tr_pos (tr_after r xs) \<le> tr_pos r'" if "ops = xs @ ys" for xs ys
      using m [OF that] by blast
    show "cf_pos s1 \<le> cf_pos s'"
      if "ops = xs @ ys" "tr_transfile_obj (tr_after r xs) = CompressedObj s1 \<and>
           tr_transfile_obj r' = CompressedObj s'" for xs ys s1 s'
      using m [OF that(1)] that(2) by blast
  qed
qed

theorem position_counter_witness:
  "tf_inv (tr_transfile_obj example_url) \<and>
   tr_run example_url [Read 2, Seek 3 SEEK_CUR, Seek 1 SEEK_SET, Read 4] =
     (6, 3, example_url\<lparr>tr_pos := 9, tr_transfile_obj := StreamObj False ''9''\<rparr>) \<and>
   \<not> delegates_to_decompressor example_url \<and>
   tr_pos (example_url\<lparr>tr_pos := 9, tr_transfile_obj := StreamObj False ''9''\<rparr>) =
     tr_pos example_url + int 6 + int 3"
proof -
  let ?r' = "example_url\<lparr>tr_pos := 9, tr_transfile_obj := StreamObj False ''9''\<rparr>"
  have i: "tf_inv (tr_transfile_obj example_url)" by (simp add: example_url_def)
  have run: "tr_run example_url [Read 2, Seek 3 SEEK_CUR, Seek 1 SEEK_SET, Read 4] = (6, 3, ?r')"
    by (simp add: example_url_def TransRead_read_def TransRead_seek_def file_read_def file_object_read_def
      fits_c_long_def LONG_MAX_def
        fake_seek_forward_def seek_loop.simps seek_emulated_def SEEK_SET_def SEEK_CUR_def)
  have d: "\<not> delegates_to_decompressor example_url"
    by (simp add: delegates_to_decompressor_def example_url_def)
  from position_counter [OF i run]
  have "\<not> delegates_to_decompressor example_url \<longrightarrow>
      tr_pos ?r' = tr_pos example_url + int 6 + int 3" by (rule conjunct1)
  then have "tr_pos ?r' = tr_pos example_url + int 6 + int 3" using d by (rule mp)
  then show ?thesis using i run d by (intro conjI)
qed

text \<open>
  The claim as the specification states it fails for the counter of \<open>TransRead\<close> over a
  \<open>_CompressedFile\<close>: \<open>seek(3, SEEK_SET)\<close> on a reader just opened discards 3 bytes in the
  \<open>_CompressedFile\<close>, whose counter becomes 3, and \<open>TransRead\<close>'s own counter stays 0.
\<close>

theorem position_counter_counterexample:
  "tr_run example_gz [Seek 3 SEEK_SET] = (0, 3, example_gz_sought) \<and>
   tr_pos example_gz = 0 \<and> tr_pos example_gz_sought = 0 \<and>
   tr_pos example_gz_sought \<noteq> tr_pos example_gz + int 0 + int 3 \<and>
   TransRead_tell example_gz_sought = Inr 3"
proof -
  have u: "unread (CompressedFile_init ''abcde'' (Some toy_decompress) 0 None) = ''abcdeabcde''"
    by (simp add: unread_def pending_def CompressedFile_init_def
        decompress_rest.simps file_read_def file_object_read_def
        fits_c_long_def LONG_MAX_def toy_decompress_def)
  have s: "TransRead_seek example_gz 3 SEEK_SET = Inr example_gz_sought"
    by (simp add: example_gz_def example_gz_sought_def TransRead_seek_def
        CompressedFile_seek_def fake_seek_forward_def seek_loop.simps
        CompressedFile_read_def CompressedFile_init_def read_from_buffer_def py_slice_def
        py_slice_from_def py_index_def read_loop.simps file_read_def file_object_read_def
        fits_c_long_def LONG_MAX_def decompress_chunk_def
        toy_decompress_def SEEK_SET_def SEEK_CUR_def)
  have u': "tf_unread (tr_transfile_obj example_gz_sought) = ''deabcde''"
    by (simp add: example_gz_sought_def unread_def pending_def
        decompress_rest.simps file_read_def file_object_read_def fits_c_long_def LONG_MAX_def)
  have e: "seek_emulated example_gz" by (simp add: seek_emulated_def example_gz_def)
  have "tr_run example_gz [Seek 3 SEEK_SET] = (0, 3, example_gz_sought)"
    using s e u u' by (simp add: example_gz_def)
  moreover have "tr_pos example_gz = 0" "tr_pos example_gz_sought = 0"
    by (simp_all add: example_gz_def example_gz_sought_def)
  moreover have "TransRead_tell example_gz_sought = Inr 3"
    by (simp add: example_gz_def example_gz_sought_def TransRead_tell_def
        CompressedFile_tell_def)
  ultimately show ?thesis by simp
qed

end
